theory Spec2Isabelle
  imports Main
begin

section \<open>Lane layout engine: \<open>getCommitGraph\<close> of \<open>src/extension.ts\<close>\<close>

text \<open>
  The layout engine receives the child mapping \<open>commits\<close> (a JavaScript object from hash to
  array of child hashes, produced by \<open>getCommitsChildren\<close>) and the list \<open>orderedCommits\<close>
  (produced by \<open>getSortedCommits\<close>, ascending by date).  Both come from a subprocess; the
  model takes them as arguments.
\<close>

datatype error = TypeError

record sorted_commit =
  hash :: string
  date :: int

text \<open>
  \<open>hashIdx\<close> is a \<open>Map\<close> filled by \<open>orderedCommits.forEach((value, index) => hashIdx.set(value.hash, index))\<close>:
  a later entry with the same hash replaces an earlier one.
\<close>

definition hashIdx_of :: "sorted_commit list \<Rightarrow> (string \<rightharpoonup> nat)" where
  "hashIdx_of orderedCommits =
     fold (\<lambda>(v, i) m. m(hash v \<mapsto> i)) (zip orderedCommits [0..<length orderedCommits]) Map.empty"

text \<open>
  The array \<open>height\<close> is a JavaScript object: its keys are the indices \<open>0..n-1\<close>, and any
  other key that is assigned to becomes a property of it.  The code indexes it with
  \<open>hashIdx.get(h)\<close>, which is \<open>undefined\<close> for a hash that is not in the order, so the
  keys of the model are \<open>Some i\<close> (index \<open>i\<close>) and \<open>None\<close> (the key \<open>undefined\<close>).
  A read yields \<open>Some v\<close> (the number \<open>v\<close>) or \<open>None\<close> (the value \<open>undefined\<close>).
\<close>

type_synonym heights = "nat option \<Rightarrow> int option"

record lstate =
  height :: heights
  subTree :: "string list"

text \<open>\<open>Array(n).fill(0)\<close> and the empty \<open>subTree\<close>.\<close>

definition init_height :: "nat \<Rightarrow> heights" where
  "init_height n = (\<lambda>k. case k of None \<Rightarrow> None | Some i \<Rightarrow> if i < n then Some 0 else None)"

definition init_state :: "nat \<Rightarrow> lstate" where
  "init_state n = \<lparr>height = init_height n, subTree = []\<rparr>"

text \<open>
  Lines 83-88: the maximum of \<open>height[idx]\<close> for \<open>idx\<close> from \<open>hashIdx.get(subTree[0])\<close> up to
  \<open>hashIdx.get(subTree[subTree.length - 1])\<close>.  When either bound is \<open>undefined\<close> the
  comparison \<open>idx <= bound\<close> is false and the loop body never runs; \<open>undefined > newHeight\<close>
  is false as well.
\<close>

definition rangeMax :: "heights \<Rightarrow> nat option \<Rightarrow> nat option \<Rightarrow> int" where
  "rangeMax h a b =
     (case a of None \<Rightarrow> 0
      | Some i \<Rightarrow> (case b of None \<Rightarrow> 0
         | Some j \<Rightarrow> fold (\<lambda>idx newHeight.
               (case h (Some idx) of None \<Rightarrow> newHeight
                | Some v \<Rightarrow> if v > newHeight then v else newHeight)) [i..<Suc j] 0))"

text \<open>
  Lines 82-100, the body of the first \<open>if\<close> of \<open>dfs\<close> (the flush of the current run).
  \<open>cs\<close> is \<open>commits[commit_hash]\<close>.  The loop of lines 90-92 writes the entries of the
  run at positions \<open>1 .. length - 2\<close>, which are the elements of \<open>butlast (tl run)\<close>.
\<close>

definition flush :: "(string \<rightharpoonup> nat) \<Rightarrow> string list \<Rightarrow> string \<Rightarrow> lstate \<Rightarrow> lstate" where
  "flush hashIdx cs commit_hash st =
     (let run = subTree st @ [commit_hash];
          newHeight = rangeMax (height st) (hashIdx (hd run)) (hashIdx (last run));
          h1 = fold (\<lambda>x h. h(hashIdx x := Some (newHeight + 1))) (butlast (tl run)) (height st);
          h2 = (if cs = [] \<and> h1 (hashIdx commit_hash) = Some 0
                then h1(hashIdx commit_hash := Some (newHeight + 1)) else h1)
      in \<lparr>height = h2, subTree = []\<rparr>)"

text \<open>
  \<open>dfs\<close> (lines 80-107).  The recursion of the source is bounded only by the call stack;
  the first argument is the number of nested calls still allowed, and \<open>None\<close> is the
  result of a traversal that needs more.  \<open>commits[commit_hash].length\<close> throws a
  \<open>TypeError\<close> when the hash is not a key of \<open>commits\<close>.  An exception leaves the loop
  over the children.
\<close>

fun dfs :: "nat \<Rightarrow> (string \<rightharpoonup> string list) \<Rightarrow> (string \<rightharpoonup> nat) \<Rightarrow> string \<Rightarrow> lstate
              \<Rightarrow> (error + lstate) option" where
  "dfs 0 commits hashIdx commit_hash st = None"
| "dfs (Suc n) commits hashIdx commit_hash st =
     (case commits commit_hash of
        None \<Rightarrow> Some (Inl TypeError)
      | Some cs \<Rightarrow>
          if cs = [] \<or> height st (hashIdx commit_hash) \<noteq> Some 0
          then Some (Inr (flush hashIdx cs commit_hash st))
          else fold (\<lambda>neighbor r.
                 (case r of
                    Some (Inr s) \<Rightarrow>
                      dfs n commits hashIdx neighbor (s\<lparr>subTree := subTree s @ [commit_hash]\<rparr>)
                  | _ \<Rightarrow> r)) cs (Some (Inr st)))"

text \<open>
  The result of \<open>getCommitGraph\<close>: one entry per element of \<open>orderedCommits\<close>.
  \<open>children\<close> is \<open>commits[commit.hash]\<close> (\<open>None\<close> when it is \<open>undefined\<close>), \<open>height\<close> is
  \<open>height[hashIdx.get(commit.hash)]\<close>.
\<close>

record layout_entry =
  hash :: string
  children :: "string list option"
  height :: "int option"

text \<open>
  Lines 67-121.  \<open>orderedCommits[0].hash\<close> throws a \<open>TypeError\<close> on an empty list.
\<close>

definition getCommitGraph :: "nat \<Rightarrow> (string \<rightharpoonup> string list) \<Rightarrow> sorted_commit list
      \<Rightarrow> (error + layout_entry list) option" where
  "getCommitGraph fuel commits orderedCommits =
     (let hashIdx = hashIdx_of orderedCommits in
      case orderedCommits of
        [] \<Rightarrow> Some (Inl TypeError)
      | c0 # _ \<Rightarrow>
          (case dfs fuel commits hashIdx (sorted_commit.hash c0) (init_state (length orderedCommits)) of
             None \<Rightarrow> None
           | Some (Inl e) \<Rightarrow> Some (Inl e)
           | Some (Inr st) \<Rightarrow>
               (let h = (lstate.height st)(Some 0 := Some 1)
                in Some (Inr (map (\<lambda>commit.
                     \<lparr>hash = sorted_commit.hash commit,
                      children = commits (sorted_commit.hash commit),
                      height = h (hashIdx (sorted_commit.hash commit))\<rparr>) orderedCommits)))))"

text \<open>
  The loop of lines 103-106 over the children of a commit, as it occurs in \<open>dfs\<close>.
\<close>

abbreviation (input) dfs_loop ::
  "nat \<Rightarrow> (string \<rightharpoonup> string list) \<Rightarrow> (string \<rightharpoonup> nat) \<Rightarrow> string \<Rightarrow> string list
     \<Rightarrow> (error + lstate) option \<Rightarrow> (error + lstate) option" where
  "dfs_loop n commits hashIdx commit_hash \<equiv>
     fold (\<lambda>neighbor r.
        (case r of
           Some (Inr s) \<Rightarrow> dfs n commits hashIdx neighbor (s\<lparr>subTree := subTree s @ [commit_hash]\<rparr>)
         | _ \<Rightarrow> r))"

text \<open>
  The child relation of a child mapping: \<open>(c, d)\<close> when \<open>d\<close> occurs in \<open>commits[c]\<close>.
\<close>

definition child_rel :: "(string \<rightharpoonup> string list) \<Rightarrow> (string \<times> string) set" where
  "child_rel commits = {(c, d). \<exists>cs. commits c = Some cs \<and> d \<in> set cs}"

text \<open>
  The state of the run buffer between two flushes: every element of \<open>subTree\<close> but the
  first was pushed by a call of \<open>dfs\<close> that found its height to be 0, and nothing was
  written since.
\<close>

definition run_inv :: "(string \<rightharpoonup> nat) \<Rightarrow> lstate \<Rightarrow> bool" where
  "run_inv hashIdx st = (\<forall>x \<in> set (tl (subTree st)). lstate.height st (hashIdx x) = Some 0)"

text \<open>
  Vocabulary for the traversal.  A commit is \<open>assigned\<close> when the test
  \<open>height[hashIdx.get(d)] != 0\<close> of line 81 succeeds for it.  A state is closed except on
  \<open>S\<close> when every assigned commit of the order outside \<open>S\<close> is a key of \<open>commits\<close> and all
  its children are assigned.  \<open>heights_ok n\<close>: the entries \<open>0..n-1\<close> are numbers, none negative.
\<close>

definition assigned :: "(string \<rightharpoonup> nat) \<Rightarrow> lstate \<Rightarrow> string \<Rightarrow> bool" where
  "assigned hashIdx st d = (lstate.height st (hashIdx d) \<noteq> Some 0)"

definition closed_except ::
  "(string \<rightharpoonup> string list) \<Rightarrow> (string \<rightharpoonup> nat) \<Rightarrow> string set \<Rightarrow> lstate \<Rightarrow> bool" where
  "closed_except commits hashIdx S st =
     (\<forall>d. d \<in> dom hashIdx \<and> d \<notin> S \<and> assigned hashIdx st d
        \<longrightarrow> (\<exists>cs. commits d = Some cs \<and> (\<forall>e\<in>set cs. assigned hashIdx st e)))"

definition heights_ok :: "nat \<Rightarrow> heights \<Rightarrow> bool" where
  "heights_ok n h = (\<forall>i<n. \<exists>v\<ge>0. h (Some i) = Some v)"

text \<open>
  The traversal once more, recording every flush: the run that was flushed (the content of
  \<open>subTree\<close> after the push of line 82), whether line 95 wrote the height of its last
  element, and the value \<open>newHeight + 1\<close> that the flush assigned.  The heights and the run
  buffer are computed exactly as in \<open>dfs\<close>; the record list is only appended to.
\<close>

record flushed_run =
  run :: "string list"
  tip_written :: bool
  lane :: int

definition flush_entry :: "(string \<rightharpoonup> nat) \<Rightarrow> string list \<Rightarrow> string \<Rightarrow> lstate \<Rightarrow> flushed_run" where
  "flush_entry hashIdx cs commit_hash st =
     (let r = subTree st @ [commit_hash];
          newHeight = rangeMax (lstate.height st) (hashIdx (hd r)) (hashIdx (last r));
          h1 = fold (\<lambda>x h. h(hashIdx x := Some (newHeight + 1))) (butlast (tl r)) (lstate.height st)
      in \<lparr>run = r, tip_written = (cs = [] \<and> h1 (hashIdx commit_hash) = Some 0),
          lane = newHeight + 1\<rparr>)"

fun dfs_runs :: "nat \<Rightarrow> (string \<rightharpoonup> string list) \<Rightarrow> (string \<rightharpoonup> nat) \<Rightarrow> string
      \<Rightarrow> lstate \<times> flushed_run list \<Rightarrow> (error + lstate \<times> flushed_run list) option" where
  "dfs_runs 0 commits hashIdx commit_hash sl = None"
| "dfs_runs (Suc n) commits hashIdx commit_hash sl =
     (case commits commit_hash of
        None \<Rightarrow> Some (Inl TypeError)
      | Some cs \<Rightarrow>
          if cs = [] \<or> lstate.height (fst sl) (hashIdx commit_hash) \<noteq> Some 0
          then Some (Inr (flush hashIdx cs commit_hash (fst sl),
                          snd sl @ [flush_entry hashIdx cs commit_hash (fst sl)]))
          else fold (\<lambda>neighbor r.
                 (case r of
                    Some (Inr (s, l)) \<Rightarrow>
                      dfs_runs n commits hashIdx neighbor (s\<lparr>subTree := subTree s @ [commit_hash]\<rparr>, l)
                  | _ \<Rightarrow> r)) cs (Some (Inr sl)))"

abbreviation (input) dfs_runs_loop ::
  "nat \<Rightarrow> (string \<rightharpoonup> string list) \<Rightarrow> (string \<rightharpoonup> nat) \<Rightarrow> string \<Rightarrow> string list
     \<Rightarrow> (error + lstate \<times> flushed_run list) option \<Rightarrow> (error + lstate \<times> flushed_run list) option" where
  "dfs_runs_loop n commits hashIdx commit_hash \<equiv>
     fold (\<lambda>neighbor r.
        (case r of
           Some (Inr (s, l)) \<Rightarrow>
             dfs_runs n commits hashIdx neighbor (s\<lparr>subTree := subTree s @ [commit_hash]\<rparr>, l)
         | _ \<Rightarrow> r))"

text \<open>
  The commits whose height a recorded flush wrote (lines 90-96), and the rows of its range
  (the bounds of the loop of line 84).
\<close>

definition written :: "flushed_run \<Rightarrow> string \<Rightarrow> bool" where
  "written e x = (x \<in> set (butlast (tl (run e))) \<or> (tip_written e \<and> x = last (run e)))"

definition in_range :: "(string \<rightharpoonup> nat) \<Rightarrow> flushed_run \<Rightarrow> nat \<Rightarrow> bool" where
  "in_range hashIdx e i =
     (case hashIdx (hd (run e)) of None \<Rightarrow> False
      | Some a \<Rightarrow> (case hashIdx (last (run e)) of None \<Rightarrow> False | Some b \<Rightarrow> a \<le> i \<and> i \<le> b))"

text \<open>
  Two facts about a record list and the current heights: every recorded flush assigned a
  value of at least 1 that its commits still have, and a later flush assigned more than
  any earlier flush did to a commit whose row lies in the range of the later one.
\<close>

definition lanes_recorded :: "(string \<rightharpoonup> nat) \<Rightarrow> flushed_run list \<Rightarrow> heights \<Rightarrow> bool" where
  "lanes_recorded hashIdx l h =
     (\<forall>e\<in>set l. 1 \<le> lane e \<and> (\<forall>x. written e x \<longrightarrow> h (hashIdx x) = Some (lane e)))"

definition lanes_ordered :: "(string \<rightharpoonup> nat) \<Rightarrow> flushed_run list \<Rightarrow> bool" where
  "lanes_ordered hashIdx l =
     (\<forall>j<length l. \<forall>k<j. \<forall>x i. written (l ! k) x \<and> hashIdx x = Some i \<and> in_range hashIdx (l ! j) i
        \<longrightarrow> lane (l ! k) < lane (l ! j))"

definition log_inv :: "(string \<rightharpoonup> nat) \<Rightarrow> lstate \<times> flushed_run list \<Rightarrow> bool" where
  "log_inv hashIdx sl =
     (run_inv hashIdx (fst sl) \<and> lanes_recorded hashIdx (snd sl) (lstate.height (fst sl))
      \<and> lanes_ordered hashIdx (snd sl))"

text \<open>Projections of the result of the recording traversal.\<close>

fun erase_log :: "(error + lstate \<times> flushed_run list) option \<Rightarrow> (error + lstate) option" where
  "erase_log None = None"
| "erase_log (Some (Inl e)) = Some (Inl e)"
| "erase_log (Some (Inr sl)) = Some (Inr (fst sl))"

fun runs_of :: "(error + lstate \<times> flushed_run list) option \<Rightarrow> (error + flushed_run list) option" where
  "runs_of None = None"
| "runs_of (Some (Inl e)) = Some (Inl e)"
| "runs_of (Some (Inr sl)) = Some (Inr (snd sl))"

section \<open>Graph renderer and checkout protocol: \<open>getGraphWebviewContent\<close> and \<open>activate\<close>\<close>

text \<open>
  The constants \<open>x\<close>, \<open>y\<close>, \<open>xOffset\<close>, \<open>yOffset\<close> of lines 198-201 (the first two renamed,
  \<open>x\<close> and \<open>y\<close> being variables everywhere else) and the palette of line 309.
\<close>

definition graph_x :: int where "graph_x = 210"
definition graph_y :: int where "graph_y = 50"
definition xOffset :: int where "xOffset = 100"
definition yOffset :: int where "yOffset = 100"

definition branchColors :: "string list" where
  "branchColors = [''navy'', ''firebrick'', ''darkgreen'', ''darkviolet'', ''darkgoldenrod'',
     ''teal'', ''#abdda4'', ''#66c2a5'', ''#c637e8'', ''#5e4fa2qqq'']"

text \<open>
  Lines 204-210: \<open>max_height\<close>, computed before the page is built.  \<open>undefined > max_height\<close>
  is false.
\<close>

definition max_height_of :: "layout_entry list \<Rightarrow> int" where
  "max_height_of commitGraph =
     fold (\<lambda>commit max_height.
        (case layout_entry.height commit of
           None \<Rightarrow> max_height
         | Some h \<Rightarrow> if h > max_height then h else max_height)) commitGraph 1"

text \<open>
  Lines 297-298 and 321-326: the page reverses the list and gives every commit the
  position \<open>{x: x + (commit.height - 1) * xOffset, y: y + index * yOffset}\<close>, where \<open>index\<close>
  counts in the reversed list.  \<open>px = None\<close> is \<open>NaN\<close> (the height was \<open>undefined\<close>).
  A later entry with the same hash replaces an earlier one.
\<close>

record position =
  px :: "int option"
  py :: int

definition positions_of :: "layout_entry list \<Rightarrow> (string \<rightharpoonup> position)" where
  "positions_of commitGraph =
     fold (\<lambda>(commit, index) m.
         m(layout_entry.hash commit \<mapsto>
           \<lparr>px = map_option (\<lambda>h. graph_x + (h - 1) * xOffset) (layout_entry.height commit),
            py = graph_y + int index * yOffset\<rparr>))
       (zip (rev commitGraph) [0..<length commitGraph]) Map.empty"

text \<open>
  \<open>branchColors[(p.x - x) / xOffset % 10]\<close>: the index is a number; the array has an entry
  for it only when it is one of the integers 0 to 9 (\<open>-0\<close> included, the remainder of a
  negative multiple of 10).  \<open>None\<close> is \<open>undefined\<close>.
\<close>

definition branchColor :: "int option \<Rightarrow> string option" where
  "branchColor p =
     (case p of
        None \<Rightarrow> None
      | Some v \<Rightarrow>
          if (v - graph_x) mod xOffset \<noteq> 0 then None
          else (let q = (v - graph_x) div xOffset in
                if 0 \<le> q then Some (branchColors ! nat (q mod 10))
                else if (- q) mod 10 = 0 then Some (branchColors ! 0)
                else None))"

text \<open>
  The elements of the page that carry a \<open>class\<close> attribute.  \<open>classList\<close> is the list of the
  class tokens, \<open>attrs\<close> the attributes; a number and the string that \<open>setAttribute\<close> makes of
  it are not told apart.  \<open>commitsData\<close> is the result of \<open>getCommitsData\<close>.
\<close>

datatype attr = Num int | Str string

record element =
  tag :: string
  classList :: "string list"
  attrs :: "string \<rightharpoonup> attr"
  textContent :: string

record commit_data =
  hash :: string
  authorName :: string
  authorEmail :: string
  authorDate :: string
  message :: string

text \<open>
  d3's \<open>selection.attr(name, value)\<close> removes the attribute when the value is \<open>undefined\<close>
  and sets it otherwise; \<open>element.setAttribute(name, undefined)\<close> sets the string
  \<open>"undefined"\<close>; the number \<open>NaN\<close> is set as \<open>"NaN"\<close>.
\<close>

definition d3_attr :: "string \<Rightarrow> attr option \<Rightarrow> (string \<rightharpoonup> attr) \<Rightarrow> (string \<rightharpoonup> attr)" where
  "d3_attr name v m = (case v of None \<Rightarrow> m(name := None) | Some a \<Rightarrow> m(name \<mapsto> a))"

definition num_attr :: "int option \<Rightarrow> attr" where
  "num_attr p = (case p of None \<Rightarrow> Str ''NaN'' | Some v \<Rightarrow> Num v)"

definition head_class :: "string \<Rightarrow> string \<Rightarrow> string" where
  "head_class HEAD d = (if d = HEAD then ''HEADElem'' else ''usualElem'')"

text \<open>Lines 359-379: the circle of node \<open>d\<close>.  \<open>p\<close> is \<open>positions[d.id]\<close>.\<close>

definition circle_elem :: "string \<Rightarrow> position \<Rightarrow> string \<Rightarrow> element" where
  "circle_elem HEAD p d =
     \<lparr>tag = ''circle'',
      classList = [head_class HEAD d, d, ''circle''],
      attrs = (d3_attr ''cy'' (Some (Num (py p)))
              (d3_attr ''cx'' (Some (num_attr (px p)))
              (d3_attr ''r'' (Some (Num 7))
              (d3_attr ''fill'' (if d = HEAD then Some (Str ''white'') else map_option Str (branchColor (px p)))
              (d3_attr ''stroke'' (map_option Str (branchColor (px p)))
              (d3_attr ''stroke-width'' (Some (Num 4)) Map.empty)))))),
      textContent = []\<rparr>"

text \<open>Lines 395-412: the commit message of node \<open>d\<close>; \<open>msg\<close> is the message found for it.\<close>

definition message_elem :: "string \<Rightarrow> int \<Rightarrow> position \<Rightarrow> string \<Rightarrow> string \<Rightarrow> element" where
  "message_elem HEAD max_height p msg d =
     \<lparr>tag = ''text'',
      classList = [head_class HEAD d, d, ''commitHash''],
      attrs = (d3_attr ''dy'' (Some (Str ''0.35em''))
              (d3_attr ''y'' (Some (Num (py p)))
              (d3_attr ''x'' (Some (Num (if d = HEAD then max_height * xOffset + graph_x + 70
                                         else max_height * xOffset + graph_x - 10))) Map.empty))),
      textContent = msg\<rparr>"

text \<open>Lines 428-449: the border of the HEAD tag of node \<open>d\<close>.\<close>

definition border_elem :: "string \<Rightarrow> int \<Rightarrow> position \<Rightarrow> string \<Rightarrow> element" where
  "border_elem HEAD max_height p d =
     \<lparr>tag = ''rect'',
      classList = [d, head_class HEAD d, ''HEADBorder''],
      attrs = (d3_attr ''stroke-width'' (Some (Num 2))
              (d3_attr ''fill'' (Some (Str ''none''))
              (d3_attr ''stroke'' (Some (Str ''lightseagreen''))
              (d3_attr ''ry'' (Some (Num 5))
              (d3_attr ''rx'' (Some (Num 5))
              (d3_attr ''height'' (Some (Num (if d = HEAD then 30 else 0)))
              (d3_attr ''width'' (Some (Num (if d = HEAD then 72 else 0)))
              (d3_attr ''y'' (Some (Num (py p - 15)))
              (d3_attr ''x'' (Some (Num (max_height * xOffset + graph_x - 10))) Map.empty))))))))),
      textContent = []\<rparr>"

text \<open>Lines 452-468: the text of the HEAD tag of node \<open>d\<close>.\<close>

definition headtext_elem :: "string \<Rightarrow> int \<Rightarrow> position \<Rightarrow> string \<Rightarrow> element" where
  "headtext_elem HEAD max_height p d =
     \<lparr>tag = ''text'',
      classList = [d, head_class HEAD d, ''HEADText''],
      attrs = (d3_attr ''dy'' (Some (Str ''0.35em''))
              (d3_attr ''y'' (Some (Num (py p)))
              (d3_attr ''x'' (Some (Num (max_height * xOffset + graph_x))) Map.empty))),
      textContent = (if d = HEAD then ''HEAD'' else [])\<rparr>"

text \<open>The three groups with a class (lines 391, 424, 472).\<close>

definition group_elem :: "string \<Rightarrow> element" where
  "group_elem c = \<lparr>tag = ''g'', classList = [c], attrs = Map.empty, textContent = []\<rparr>"

text \<open>
  The state of the page's script: the variable \<open>HEAD\<close>, the constants \<open>positions\<close> and
  \<open>max_height\<close>, and the elements with a class, in document order.
\<close>

record webview =
  HEAD :: string
  positions :: "string \<rightharpoonup> position"
  max_height :: int
  document :: "element list"

text \<open>
  \<open>commitsDateString.find(commit => commit.hash === d.id).message\<close> and \<open>positions[d.id].x\<close>
  throw a \<open>TypeError\<close> when nothing is found; the script then stops and installs no message
  listener.  \<open>node_rows\<close> collects, for every node, the position and the message that the
  joins of lines 359-468 read.
\<close>

definition find_message :: "commit_data list \<Rightarrow> string \<Rightarrow> error + string" where
  "find_message commitsData d =
     (case List.find (\<lambda>commit. commit_data.hash commit = d) commitsData of
        None \<Rightarrow> Inl TypeError
      | Some commit \<Rightarrow> Inr (message commit))"

fun node_rows :: "(string \<rightharpoonup> position) \<Rightarrow> commit_data list \<Rightarrow> string list
      \<Rightarrow> error + (string \<times> position \<times> string) list" where
  "node_rows ps commitsData [] = Inr []"
| "node_rows ps commitsData (d # ds) =
     (case ps d of
        None \<Rightarrow> Inl TypeError
      | Some p \<Rightarrow>
          (case find_message commitsData d of
             Inl e \<Rightarrow> Inl e
           | Inr m \<Rightarrow>
               (case node_rows ps commitsData ds of
                  Inl e \<Rightarrow> Inl e
                | Inr rows \<Rightarrow> Inr ((d, p, m) # rows))))"

text \<open>
  The page after its script has run (lines 295-482).  \<open>nodes\<close> holds the hashes of the
  reversed list.
\<close>

definition getGraphWebviewContent ::
  "layout_entry list \<Rightarrow> string \<Rightarrow> commit_data list \<Rightarrow> error + webview" where
  "getGraphWebviewContent commitGraph HEAD0 commitsData =
     (let mh = max_height_of commitGraph;
          nodes = map layout_entry.hash (rev commitGraph);
          ps = positions_of commitGraph
      in case node_rows ps commitsData nodes of
           Inl e \<Rightarrow> Inl e
         | Inr rows \<Rightarrow>
             Inr \<lparr>HEAD = HEAD0, positions = ps, max_height = mh,
                  document = map (\<lambda>(d, p, m). circle_elem HEAD0 p d) rows
                           @ [group_elem ''textGroup'']
                           @ map (\<lambda>(d, p, m). message_elem HEAD0 mh p m d) rows
                           @ [group_elem ''headGroup'']
                           @ map (\<lambda>(d, p, m). border_elem HEAD0 mh p d) rows
                           @ map (\<lambda>(d, p, m). headtext_elem HEAD0 mh p d) rows
                           @ [group_elem ''dateGroup'']\<rparr>)"

text \<open>
  The messages between the page and the extension: objects with the fields \<open>command\<close> and
  \<open>commitHash\<close>.
\<close>

record message_obj =
  command :: string
  commitHash :: string

text \<open>Lines 380-383 and 413-415: the double-click handlers of a circle and of a message.\<close>

definition dblclick :: "string \<Rightarrow> message_obj" where
  "dblclick d = \<lparr>command = ''gitCheckout'', commitHash = d\<rparr>"

text \<open>\<open>classList.add\<close>, \<open>classList.remove\<close>, \<open>setAttribute\<close>.\<close>

definition classList_add :: "string \<Rightarrow> string list \<Rightarrow> string list" where
  "classList_add c cl = (if c \<in> set cl then cl else cl @ [c])"

definition classList_remove :: "string \<Rightarrow> string list \<Rightarrow> string list" where
  "classList_remove c cl = removeAll c cl"

definition setAttribute :: "string \<Rightarrow> attr \<Rightarrow> element \<Rightarrow> element" where
  "setAttribute name v e = e\<lparr>attrs := (attrs e)(name \<mapsto> v)\<rparr>"

text \<open>
  Lines 502-520, the body of the first loop of the listener, for one element that has the
  class \<open>HEADElem\<close>.  \<open>positions[HEAD].x\<close> throws a \<open>TypeError\<close> when \<open>HEAD\<close> has no position.
\<close>

definition unmark_elem :: "webview \<Rightarrow> element \<Rightarrow> error + element" where
  "unmark_elem w e =
     (let r =
        (if ''circle'' \<in> set (classList e) then
           (case positions w (HEAD w) of
              None \<Rightarrow> Inl TypeError
            | Some p \<Rightarrow>
                Inr (setAttribute ''fill''
                       (case branchColor (px p) of None \<Rightarrow> Str ''undefined'' | Some c \<Rightarrow> Str c) e))
         else if ''commitHash'' \<in> set (classList e) then
           Inr (setAttribute ''x'' (Num (max_height w * xOffset + graph_x - 10)) e)
         else if ''HEADBorder'' \<in> set (classList e) then
           Inr (setAttribute ''height'' (Num 0) (setAttribute ''width'' (Num 0) e))
         else if ''HEADText'' \<in> set (classList e) then
           Inr (e\<lparr>textContent := []\<rparr>)
         else Inr e)
      in case r of
           Inl err \<Rightarrow> Inl err
         | Inr e1 \<Rightarrow>
             Inr (e1\<lparr>classList := classList_add ''usualElem''
                                    (classList_remove ''HEADElem'' (classList e1))\<rparr>))"

text \<open>
  The first loop over the elements that had the class \<open>HEADElem\<close> when the listener
  started, in document order.  An exception ends the listener: the elements before the
  one that threw are changed, the others are not.  The flag says whether it threw.
\<close>

fun unmark_all :: "webview \<Rightarrow> element list \<Rightarrow> element list \<times> bool" where
  "unmark_all w [] = ([], False)"
| "unmark_all w (e # es) =
     (if ''HEADElem'' \<in> set (classList e) then
        (case unmark_elem w e of
           Inl err \<Rightarrow> (e # es, True)
         | Inr e1 \<Rightarrow> (case unmark_all w es of (es1, thrown) \<Rightarrow> (e1 # es1, thrown)))
      else (case unmark_all w es of (es1, thrown) \<Rightarrow> (e # es1, thrown)))"

text \<open>Lines 526-544, the body of the second loop, for one element with the class \<open>HEAD\<close>.\<close>

definition mark_elem :: "webview \<Rightarrow> element \<Rightarrow> element" where
  "mark_elem w e =
     (let e1 =
        (if ''circle'' \<in> set (classList e) then setAttribute ''fill'' (Str ''white'') e
         else if ''commitHash'' \<in> set (classList e) then
           setAttribute ''x'' (Num (max_height w * xOffset + graph_x + 70)) e
         else if ''HEADBorder'' \<in> set (classList e) then
           setAttribute ''height'' (Num 30) (setAttribute ''width'' (Num 72) e)
         else if ''HEADText'' \<in> set (classList e) then e\<lparr>textContent := ''HEAD''\<rparr>
         else e)
      in e1\<lparr>classList := classList_remove ''usualElem''
                             (classList_add ''HEADElem'' (classList e1))\<rparr>)"

text \<open>
  Lines 494-548: the listener for messages from the extension.  Only the command
  \<open>gitCheckout\<close> has a case.
\<close>

definition on_message :: "message_obj \<Rightarrow> webview \<Rightarrow> webview" where
  "on_message msg w =
     (if command msg = ''gitCheckout'' then
        (case unmark_all w (document w) of
           (dom1, thrown) \<Rightarrow>
             if thrown then w\<lparr>document := dom1\<rparr>
             else (let w1 = w\<lparr>HEAD := commitHash msg, document := dom1\<rparr>
                   in w1\<lparr>document := map (\<lambda>e. if HEAD w1 \<in> set (classList e) then mark_elem w1 e else e)
                                   dom1\<rparr>))
      else w)"

text \<open>
  Lines 609-624: the extension's handler for a message of the page.  \<open>git.checkout\<close> is
  external: \<open>checkout h\<close> is \<open>None\<close> when it succeeds and \<open>Some text\<close> when it throws an error
  with that text.  The handler answers a success with a message to the page and a failure
  with \<open>showErrorMessage\<close>.
\<close>

datatype host_effect = PostMessage message_obj | ShowErrorMessage string string | NoEffect

definition onDidReceiveMessage :: "(string \<Rightarrow> string option) \<Rightarrow> message_obj \<Rightarrow> host_effect" where
  "onDidReceiveMessage checkout msg =
     (if command msg = ''gitCheckout'' then
        (case checkout (commitHash msg) of
           None \<Rightarrow> PostMessage \<lparr>command = ''gitCheckout'', commitHash = commitHash msg\<rparr>
         | Some text \<Rightarrow> ShowErrorMessage text ''Close'')
      else NoEffect)"

text \<open>
  One panel session: the page, the requests that the page has posted and the extension
  has not answered yet, and the error messages shown to the user.  The user double-clicks
  a node; the extension answers one of the outstanding requests (any of them: each request
  starts its own asynchronous handler).
\<close>

record session =
  page :: webview
  outstanding :: "message_obj list"
  shown :: "string list"

datatype event = DblClick string | Answer nat

definition step :: "(string \<Rightarrow> string option) \<Rightarrow> event \<Rightarrow> session \<Rightarrow> session" where
  "step checkout ev s =
     (case ev of
        DblClick d \<Rightarrow> s\<lparr>outstanding := outstanding s @ [dblclick d]\<rparr>
      | Answer i \<Rightarrow>
          if i < length (outstanding s) then
            (let rest = take i (outstanding s) @ drop (Suc i) (outstanding s) in
             case onDidReceiveMessage checkout (outstanding s ! i) of
               PostMessage m \<Rightarrow> s\<lparr>page := on_message m (page s), outstanding := rest\<rparr>
             | ShowErrorMessage text button \<Rightarrow> s\<lparr>shown := shown s @ [text], outstanding := rest\<rparr>
             | NoEffect \<Rightarrow> s\<lparr>outstanding := rest\<rparr>)
          else s)"

text \<open>
  Vocabulary for the page.  The class tokens that the page itself uses are \<open>reserved\<close>; the
  hashes of git are 40 hexadecimal digits and never one of them.  \<open>skel\<close> is the class
  list of an element without the two tokens that the listener adds and removes.  The
  \<open>kind\<close> of an element is the branch that the \<open>if\<close> chains of lines 504-516 and 528-540
  take for it.
\<close>

definition reserved :: "string set" where
  "reserved = {''HEADElem'', ''usualElem'', ''circle'', ''commitHash'', ''HEADBorder'', ''HEADText'',
     ''textGroup'', ''headGroup'', ''dateGroup''}"

definition skel :: "element \<Rightarrow> string set" where
  "skel e = set (classList e) - {''HEADElem'', ''usualElem''}"

definition skeleton :: "layout_entry list \<Rightarrow> string set list" where
  "skeleton commitGraph =
     (let nodes = map layout_entry.hash (rev commitGraph) in
      map (\<lambda>d. {d, ''circle''}) nodes @ [{''textGroup''}]
      @ map (\<lambda>d. {d, ''commitHash''}) nodes @ [{''headGroup''}]
      @ map (\<lambda>d. {d, ''HEADBorder''}) nodes
      @ map (\<lambda>d. {d, ''HEADText''}) nodes @ [{''dateGroup''}])"

datatype kind = Circle | Message | Border | HeadText | Other

definition kind_of :: "element \<Rightarrow> kind" where
  "kind_of e =
     (if ''circle'' \<in> set (classList e) then Circle
      else if ''commitHash'' \<in> set (classList e) then Message
      else if ''HEADBorder'' \<in> set (classList e) then Border
      else if ''HEADText'' \<in> set (classList e) then HeadText
      else Other)"

text \<open>
  An element shows the HEAD decoration (white fill, message moved to the right, border of
  72 by 30, the text \<open>HEAD\<close>), or it shows none.
\<close>

definition decorated :: "int \<Rightarrow> element \<Rightarrow> bool" where
  "decorated mh e =
     (case kind_of e of
        Circle \<Rightarrow> attrs e ''fill'' = Some (Str ''white'')
      | Message \<Rightarrow> attrs e ''x'' = Some (Num (mh * xOffset + graph_x + 70))
      | Border \<Rightarrow> attrs e ''width'' = Some (Num 72) \<and> attrs e ''height'' = Some (Num 30)
      | HeadText \<Rightarrow> textContent e = ''HEAD''
      | Other \<Rightarrow> True)"

definition undecorated :: "int \<Rightarrow> element \<Rightarrow> bool" where
  "undecorated mh e =
     (case kind_of e of
        Circle \<Rightarrow> attrs e ''fill'' \<noteq> Some (Str ''white'')
      | Message \<Rightarrow> attrs e ''x'' = Some (Num (mh * xOffset + graph_x - 10))
      | Border \<Rightarrow> attrs e ''width'' = Some (Num 0) \<and> attrs e ''height'' = Some (Num 0)
      | HeadText \<Rightarrow> textContent e = []
      | Other \<Rightarrow> True)"

text \<open>
  The pages of a panel: the page as built for some \<open>HEAD\<close>, and every page that results
  from a message of the extension about a checkout of one of the commits of the graph
  (the extension answers only requests of the page, and the page requests only the
  hashes of its nodes).
\<close>

inductive reachable_page :: "layout_entry list \<Rightarrow> webview \<Rightarrow> bool" for commitGraph where
  initial: "getGraphWebviewContent commitGraph HEAD0 commitsData = Inr w \<Longrightarrow> HEAD0 \<notin> reserved
      \<Longrightarrow> reachable_page commitGraph w"
| checkout: "reachable_page commitGraph w \<Longrightarrow> B \<in> layout_entry.hash ` set commitGraph
      \<Longrightarrow> reachable_page commitGraph (on_message (dblclick B) w)"

text \<open>What holds of every such page.\<close>

definition page_inv :: "layout_entry list \<Rightarrow> webview \<Rightarrow> bool" where
  "page_inv commitGraph w =
     (HEAD w \<notin> reserved
      \<and> positions w = positions_of commitGraph
      \<and> max_height w = max_height_of commitGraph
      \<and> map skel (document w) = skeleton commitGraph
      \<and> (\<forall>e\<in>set (document w).
            if HEAD w \<in> set (classList e)
            then ''HEADElem'' \<in> set (classList e) \<and> decorated (max_height w) e
            else ''HEADElem'' \<notin> set (classList e) \<and> undecorated (max_height w) e))"

text \<open>The effect of the two loops of the listener on one element.\<close>

definition unmark_one :: "webview \<Rightarrow> element \<Rightarrow> element" where
  "unmark_one w e =
     (if ''HEADElem'' \<in> set (classList e)
      then (case unmark_elem w e of Inl err \<Rightarrow> e | Inr e1 \<Rightarrow> e1) else e)"

definition patch_elem :: "webview \<Rightarrow> string \<Rightarrow> element \<Rightarrow> element" where
  "patch_elem w B e =
     (if B \<in> set (classList (unmark_one w e))
      then mark_elem (w\<lparr>HEAD := B\<rparr>) (unmark_one w e) else unmark_one w e)"

text \<open>
  What the listener may change of an element: the two class tokens \<open>HEADElem\<close> and
  \<open>usualElem\<close>, the fill of a circle, the \<open>x\<close> of a commit message, the width and height of
  a border, and the text of a HEAD tag.
\<close>

definition decoration_change :: "element \<Rightarrow> element \<Rightarrow> bool" where
  "decoration_change e e' =
     (tag e' = tag e \<and> skel e' = skel e
      \<and> (\<forall>name. attrs e' name \<noteq> attrs e name
            \<longrightarrow> (kind_of e = Circle \<and> name = ''fill'')
                \<or> (kind_of e = Message \<and> name = ''x'')
                \<or> (kind_of e = Border \<and> (name = ''width'' \<or> name = ''height'')))
      \<and> (textContent e' \<noteq> textContent e \<longrightarrow> kind_of e = HeadText))"

section \<open>Properties of the layout engine\<close>

subsection \<open>The index map\<close>

lemma hashIdx_of_snoc:
  "hashIdx_of (xs @ [x]) = (hashIdx_of xs)(sorted_commit.hash x \<mapsto> length xs)"
  by (simp add: hashIdx_of_def)

lemma hashIdx_of_Nil: "hashIdx_of [] = Map.empty"
  by (simp add: hashIdx_of_def)

lemma hashIdx_of_Some:
  "hashIdx_of xs h = Some i \<Longrightarrow> i < length xs \<and> sorted_commit.hash (xs ! i) = h"
proof (induction xs arbitrary: i rule: rev_induct)
  case Nil
  then show ?case by (simp add: hashIdx_of_Nil)
next
  case (snoc x xs)
  then show ?case
    by (auto simp: hashIdx_of_snoc nth_append split: if_splits)
qed

lemma hashIdx_of_None:
  "hashIdx_of xs h = None \<longleftrightarrow> h \<notin> sorted_commit.hash ` set xs"
  by (induction xs rule: rev_induct) (auto simp: hashIdx_of_snoc hashIdx_of_Nil)

lemma hashIdx_of_distinct:
  "distinct (map sorted_commit.hash xs) \<Longrightarrow> i < length xs
     \<Longrightarrow> hashIdx_of xs (sorted_commit.hash (xs ! i)) = Some i"
proof (induction xs arbitrary: i rule: rev_induct)
  case Nil
  then show ?case by simp
next
  case (snoc x xs)
  show ?case
  proof (cases "i < length xs")
    case True
    then have "sorted_commit.hash (xs ! i) \<in> sorted_commit.hash ` set xs"
      by simp
    with snoc.prems have "sorted_commit.hash (xs ! i) \<noteq> sorted_commit.hash x"
      by auto
    with True snoc show ?thesis
      by (simp add: hashIdx_of_snoc nth_append)
  next
    case False
    with snoc.prems have "i = length xs" by simp
    then show ?thesis by (simp add: hashIdx_of_snoc)
  qed
qed

lemma getCommitGraph_Inr:
  assumes "getCommitGraph fuel commits orderedCommits = Some (Inr answer)"
  obtains c0 cs st where "orderedCommits = c0 # cs"
    and "dfs fuel commits (hashIdx_of orderedCommits) (sorted_commit.hash c0)
           (init_state (length orderedCommits)) = Some (Inr st)"
    and "answer = map (\<lambda>commit.
        \<lparr>layout_entry.hash = sorted_commit.hash commit,
         children = commits (sorted_commit.hash commit),
         height = ((lstate.height st)(Some 0 := Some 1))
                    (hashIdx_of orderedCommits (sorted_commit.hash commit))\<rparr>) orderedCommits"
  using assms unfolding getCommitGraph_def Let_def
  by (cases orderedCommits) (simp_all split: option.splits sum.splits)

text \<open>
  Claim C2.  Whenever \<open>getCommitGraph\<close> produces a layout for a list of commits with
  pairwise different hashes, the entry of the commit at row index 0 (the chronologically
  earliest one) has height 1.
\<close>

theorem root_height_one:
  assumes "getCommitGraph fuel commits orderedCommits = Some (Inr answer)"
    and "distinct (map sorted_commit.hash orderedCommits)"
  shows "answer \<noteq> [] \<and> layout_entry.hash (answer ! 0) = sorted_commit.hash (orderedCommits ! 0)
         \<and> layout_entry.height (answer ! 0) = Some 1"
proof -
  from assms(1) obtain c0 cs st where oc: "orderedCommits = c0 # cs"
    and "dfs fuel commits (hashIdx_of orderedCommits) (sorted_commit.hash c0)
           (init_state (length orderedCommits)) = Some (Inr st)"
    and ans: "answer = map (\<lambda>commit.
        \<lparr>layout_entry.hash = sorted_commit.hash commit,
         children = commits (sorted_commit.hash commit),
         height = ((lstate.height st)(Some 0 := Some 1))
                    (hashIdx_of orderedCommits (sorted_commit.hash commit))\<rparr>) orderedCommits"
    by (rule getCommitGraph_Inr)
  have idx: "hashIdx_of orderedCommits (sorted_commit.hash c0) = Some 0"
    using hashIdx_of_distinct [OF assms(2), of 0] oc by simp
  from ans oc idx show ?thesis by simp
qed

theorem root_height_one_witness:
  "getCommitGraph 3 [''a'' \<mapsto> [''b'', ''c''], ''b'' \<mapsto> [], ''c'' \<mapsto> []]
     [\<lparr>sorted_commit.hash = ''a'', date = 10\<rparr>, \<lparr>sorted_commit.hash = ''b'', date = 20\<rparr>,
      \<lparr>sorted_commit.hash = ''c'', date = 30\<rparr>]
   = Some (Inr [\<lparr>layout_entry.hash = ''a'', children = Some [''b'', ''c''], height = Some 1\<rparr>,
                \<lparr>layout_entry.hash = ''b'', children = Some [], height = Some 1\<rparr>,
                \<lparr>layout_entry.hash = ''c'', children = Some [], height = Some 2\<rparr>])
   \<and> layout_entry.height
        ([\<lparr>layout_entry.hash = ''a'', children = Some [''b'', ''c''], height = Some 1\<rparr>,
          \<lparr>layout_entry.hash = ''b'', children = Some [], height = Some 1\<rparr>,
          \<lparr>layout_entry.hash = ''c'', children = Some [], height = Some 2\<rparr>] ! 0) = Some 1"
proof -
  have run: "getCommitGraph 3 [''a'' \<mapsto> [''b'', ''c''], ''b'' \<mapsto> [], ''c'' \<mapsto> []]
     [\<lparr>sorted_commit.hash = ''a'', date = 10\<rparr>, \<lparr>sorted_commit.hash = ''b'', date = 20\<rparr>,
      \<lparr>sorted_commit.hash = ''c'', date = 30\<rparr>]
   = Some (Inr [\<lparr>layout_entry.hash = ''a'', children = Some [''b'', ''c''], height = Some 1\<rparr>,
                \<lparr>layout_entry.hash = ''b'', children = Some [], height = Some 1\<rparr>,
                \<lparr>layout_entry.hash = ''c'', children = Some [], height = Some 2\<rparr>])"
    by code_simp
  have d: "distinct (map sorted_commit.hash [\<lparr>sorted_commit.hash = ''a'', date = 10\<rparr>,
      \<lparr>sorted_commit.hash = ''b'', date = 20\<rparr>, \<lparr>sorted_commit.hash = ''c'', date = 30\<rparr>])"
    by simp
  from root_height_one [OF run d] run show ?thesis by simp
qed

subsection \<open>Termination of the traversal\<close>

lemma dfs_loop_not_None:
  "\<forall>d\<in>set cs. \<forall>s. dfs n commits hashIdx d s \<noteq> None \<Longrightarrow> r \<noteq> None
     \<Longrightarrow> dfs_loop n commits hashIdx c cs r \<noteq> None"
  by (induction cs arbitrary: r) (auto split: option.splits sum.splits)

lemma finite_child_rel:
  assumes "finite (dom commits)"
  shows "finite (child_rel commits)"
proof -
  have "child_rel commits \<subseteq> (\<Union>c\<in>dom commits. {c} \<times> set (the (commits c)))"
    by (auto simp: child_rel_def)
  moreover have "finite (\<Union>c\<in>dom commits. {c} \<times> set (the (commits c)))"
    using assms by simp
  ultimately show ?thesis by (rule finite_subset)
qed

lemma uniform_bound:
  "\<forall>d\<in>set cs. \<exists>n::nat. \<forall>m\<ge>n. P d m \<Longrightarrow> \<exists>N. \<forall>d\<in>set cs. \<forall>m\<ge>N. P d m"
proof (induction cs)
  case Nil
  then show ?case by simp
next
  case (Cons d cs)
  then obtain N where N: "\<forall>e\<in>set cs. \<forall>m\<ge>N. P e m" by auto
  from Cons.prems obtain n where n: "\<forall>m\<ge>n. P d m" by auto
  have "\<forall>e\<in>set (d # cs). \<forall>m\<ge>max n N. P e m"
    using N n by auto
  then show ?case ..
qed

lemma dfs_enough_fuel:
  assumes "wf ((child_rel commits)\<inverse>)"
  shows "\<exists>n. \<forall>m\<ge>n. \<forall>st. dfs m commits hashIdx c st \<noteq> None"
  using assms
proof (induction c rule: wf_induct_rule)
  case (less c)
  show ?case
  proof (cases "commits c")
    case None
    have "\<forall>m\<ge>Suc 0. \<forall>st. dfs m commits hashIdx c st \<noteq> None"
    proof (intro allI impI)
      fix m st assume "Suc 0 \<le> m"
      then obtain k where "m = Suc k" by (cases m) auto
      with None show "dfs m commits hashIdx c st \<noteq> None" by simp
    qed
    then show ?thesis ..
  next
    case (Some cs)
    have "\<forall>d\<in>set cs. \<exists>n. \<forall>m\<ge>n. \<forall>st. dfs m commits hashIdx d st \<noteq> None"
    proof
      fix d assume "d \<in> set cs"
      with Some have "(d, c) \<in> (child_rel commits)\<inverse>" by (auto simp: child_rel_def)
      then show "\<exists>n. \<forall>m\<ge>n. \<forall>st. dfs m commits hashIdx d st \<noteq> None" by (rule less.IH)
    qed
    then obtain N where N: "\<forall>d\<in>set cs. \<forall>m\<ge>N. \<forall>st. dfs m commits hashIdx d st \<noteq> None"
      using uniform_bound [of cs "\<lambda>d m. \<forall>st. dfs m commits hashIdx d st \<noteq> None"] by blast
    have "\<forall>m\<ge>Suc N. \<forall>st. dfs m commits hashIdx c st \<noteq> None"
    proof (intro allI impI)
      fix m st assume "Suc N \<le> m"
      then obtain k where k: "m = Suc k" "N \<le> k" by (cases m) auto
      from N k have "\<forall>d\<in>set cs. \<forall>s. dfs k commits hashIdx d s \<noteq> None" by blast
      then have "dfs_loop k commits hashIdx c cs (Some (Inr st)) \<noteq> None"
        by (rule dfs_loop_not_None) simp
      with Some k show "dfs m commits hashIdx c st \<noteq> None" by simp
    qed
    then show ?thesis ..
  qed
qed

lemma getCommitGraph_enough_fuel:
  assumes "finite (dom commits)" and "acyclic (child_rel commits)"
  shows "\<exists>n. \<forall>fuel\<ge>n. getCommitGraph fuel commits orderedCommits \<noteq> None"
proof -
  have "wf ((child_rel commits)\<inverse>)"
    using assms by (simp add: finite_child_rel finite_acyclic_wf_converse)
  then have *: "\<exists>n. \<forall>m\<ge>n. \<forall>st. dfs m commits (hashIdx_of orderedCommits) c st \<noteq> None" for c
    by (rule dfs_enough_fuel)
  show ?thesis
  proof (cases orderedCommits)
    case Nil
    then show ?thesis by (simp add: getCommitGraph_def)
  next
    case (Cons c0 cs)
    from * [of "sorted_commit.hash c0"] obtain n where
      "\<forall>m\<ge>n. \<forall>st. dfs m commits (hashIdx_of orderedCommits) (sorted_commit.hash c0) st \<noteq> None" ..
    then have "\<forall>fuel\<ge>n. dfs fuel commits (hashIdx_of orderedCommits) (sorted_commit.hash c0)
        (init_state (length orderedCommits)) \<noteq> None"
      by blast
    then have "\<forall>fuel\<ge>n. getCommitGraph fuel commits orderedCommits \<noteq> None"
      using Cons by (auto simp: getCommitGraph_def Let_def split: option.splits sum.splits)
    then show ?thesis ..
  qed
qed

text \<open>
  Claim C10.  For a child mapping with finitely many keys whose child relation is acyclic,
  the traversal started at the first commit of the order terminates: there is a call depth
  from which on \<open>getCommitGraph\<close> returns (a layout or an exception).  The proof does not need
  the hashes to occur in the order.
\<close>

theorem layout_terminates:
  assumes "finite (dom commits)" and "acyclic (child_rel commits)"
  shows "\<exists>n. \<forall>fuel\<ge>n. getCommitGraph fuel commits orderedCommits \<noteq> None"
  using assms by (rule getCommitGraph_enough_fuel)

theorem layout_terminates_witness:
  "finite (dom [''a'' \<mapsto> [''b'', ''c''], ''b'' \<mapsto> [''c''], ''c'' \<mapsto> []])
   \<and> acyclic (child_rel [''a'' \<mapsto> [''b'', ''c''], ''b'' \<mapsto> [''c''], ''c'' \<mapsto> []])
   \<and> (\<exists>n. \<forall>fuel\<ge>n. getCommitGraph fuel [''a'' \<mapsto> [''b'', ''c''], ''b'' \<mapsto> [''c''], ''c'' \<mapsto> []]
        [\<lparr>sorted_commit.hash = ''a'', date = 1\<rparr>, \<lparr>sorted_commit.hash = ''b'', date = 2\<rparr>,
         \<lparr>sorted_commit.hash = ''c'', date = 3\<rparr>] \<noteq> None)"
proof -
  let ?m = "[''a'' \<mapsto> [''b'', ''c''], ''b'' \<mapsto> [''c''], ''c'' \<mapsto> []]"
  have f: "finite (dom ?m)" by simp
  have "child_rel ?m = {(''a'', ''b''), (''a'', ''c''), (''b'', ''c'')}"
    by (auto simp: child_rel_def split: if_splits)
  then have a: "acyclic (child_rel ?m)"
    by (simp add: rtrancl_insert acyclic_def [of "{}"])
  from f a layout_terminates [OF f a] show ?thesis by blast
qed

subsection \<open>Assigned heights are kept\<close>

lemma fold_max_ge: 
  "acc \<le> fold (\<lambda>idx newHeight.
               (case h (Some idx) of None \<Rightarrow> newHeight
                | Some v \<Rightarrow> if v > newHeight then v else newHeight)) xs (acc::int)"
proof (induction xs arbitrary: acc)
  case Nil
  then show ?case by simp
next
  case (Cons x xs)
  show ?case
  proof (cases "h (Some x)")
    case None
    then show ?thesis using Cons.IH [of acc] by simp
  next
    case (Some v)
    then show ?thesis using Cons.IH [of acc] Cons.IH [of v] by simp
  qed
qed

lemma rangeMax_nonneg: "0 \<le> rangeMax h a b"
  by (simp add: rangeMax_def fold_max_ge split: option.splits)

lemma fold_upd_other:
  "k \<notin> f ` set xs \<Longrightarrow> fold (\<lambda>x h. h(f x := w)) xs h k = h k"
  by (induction xs arbitrary: h) auto

lemma fold_upd_in:
  "k \<in> f ` set xs \<Longrightarrow> fold (\<lambda>x h. h(f x := w)) xs h k = w"
proof (induction xs arbitrary: h)
  case Nil
  then show ?case by simp
next
  case (Cons x xs)
  show ?case
  proof (cases "k \<in> f ` set xs")
    case True
    then show ?thesis using Cons.IH by simp
  next
    case False
    with Cons.prems have k: "k = f x" by auto
    have "fold (\<lambda>x h. h(f x := w)) (x # xs) h k = fold (\<lambda>x h. h(f x := w)) xs (h(f x := w)) k"
      by simp
    also have "\<dots> = (h(f x := w)) k"
      using False by (rule fold_upd_other)
    also have "\<dots> = w"
      using k by simp
    finally show ?thesis .
  qed
qed

lemma butlast_tl_snoc: "butlast (tl (xs @ [c])) = tl xs"
  by (cases xs) simp_all

lemma flush_subTree: "subTree (flush hashIdx cs c st) = []"
  by (simp add: flush_def Let_def)

lemma flush_height:
  "lstate.height (flush hashIdx cs c st) k =
     (if k \<in> hashIdx ` set (tl (subTree st))
         \<or> (k = hashIdx c \<and> cs = [] \<and> lstate.height st k = Some 0)
      then Some (rangeMax (lstate.height st) (hashIdx (hd (subTree st @ [c]))) (hashIdx c) + 1)
      else lstate.height st k)"
proof -
  let ?w = "rangeMax (lstate.height st) (hashIdx (hd (subTree st @ [c]))) (hashIdx c) + 1"
  have w: "?w \<noteq> 0"
    using rangeMax_nonneg [of "lstate.height st" "hashIdx (hd (subTree st @ [c]))" "hashIdx c"]
    by simp
  show ?thesis
  proof (cases "k \<in> hashIdx ` set (tl (subTree st))")
    case True
    then show ?thesis
      using w by (simp add: flush_def Let_def butlast_tl_snoc fold_upd_in)
  next
    case False
    show ?thesis
    proof (cases "hashIdx c \<in> hashIdx ` set (tl (subTree st))")
      case True
      with False have "k \<noteq> hashIdx c" by auto
      with False True show ?thesis
        using w by (simp add: flush_def Let_def butlast_tl_snoc fold_upd_in fold_upd_other)
    next
      case c: False
      with False show ?thesis
        by (auto simp: flush_def Let_def butlast_tl_snoc fold_upd_other)
    qed
  qed
qed

lemma flush_keeps_assigned:
  "run_inv hashIdx st \<Longrightarrow> lstate.height st k \<noteq> Some 0
     \<Longrightarrow> lstate.height (flush hashIdx cs c st) k = lstate.height st k"
  by (auto simp: flush_height run_inv_def)

lemma dfs_loop_stuck:
  "\<forall>s. r \<noteq> Some (Inr s) \<Longrightarrow> dfs_loop n commits hashIdx c cs r = r"
  by (induction cs) (auto split: option.splits sum.splits)

lemma run_inv_push:
  "run_inv hashIdx st \<Longrightarrow> lstate.height st (hashIdx c) = Some 0
     \<Longrightarrow> run_inv hashIdx (st\<lparr>subTree := subTree st @ [c]\<rparr>)"
  by (cases "subTree st") (auto simp: run_inv_def)

lemma run_inv_single: "subTree s = [] \<Longrightarrow> run_inv hashIdx (s\<lparr>subTree := subTree s @ [c]\<rparr>)"
  by (simp add: run_inv_def)

lemma dfs_loop_keeps_assigned:
  assumes IH: "\<And>d s s'. run_inv hashIdx s \<Longrightarrow> dfs n commits hashIdx d s = Some (Inr s')
        \<Longrightarrow> subTree s' = [] \<and> (\<forall>k. lstate.height s k \<noteq> Some 0 \<longrightarrow> lstate.height s' k = lstate.height s k)"
  shows "dfs_loop n commits hashIdx c cs (Some (Inr s)) = Some (Inr s')
     \<Longrightarrow> run_inv hashIdx (s\<lparr>subTree := subTree s @ [c]\<rparr>) \<Longrightarrow> cs \<noteq> []
     \<Longrightarrow> subTree s' = [] \<and> (\<forall>k. lstate.height s k \<noteq> Some 0 \<longrightarrow> lstate.height s' k = lstate.height s k)"
proof (induction cs arbitrary: s)
  case Nil
  then show ?case by simp
next
  case (Cons d ds)
  let ?r = "dfs n commits hashIdx d (s\<lparr>subTree := subTree s @ [c]\<rparr>)"
  from Cons.prems(1) have loop: "dfs_loop n commits hashIdx c ds ?r = Some (Inr s')" by simp
  have "\<exists>s1. ?r = Some (Inr s1)"
  proof (rule ccontr)
    assume "\<not> ?thesis"
    then have "dfs_loop n commits hashIdx c ds ?r = ?r" by (intro dfs_loop_stuck) simp
    with loop \<open>\<not> (\<exists>s1. ?r = Some (Inr s1))\<close> show False by simp
  qed
  then obtain s1 where s1: "?r = Some (Inr s1)" ..
  from IH [OF Cons.prems(2) s1]
  have e1: "subTree s1 = []"
    and k1: "\<forall>k. lstate.height s k \<noteq> Some 0 \<longrightarrow> lstate.height s1 k = lstate.height s k"
    by simp_all
  show ?case
  proof (cases "ds = []")
    case True
    with loop s1 e1 k1 show ?thesis by simp
  next
    case False
    from loop s1 have "dfs_loop n commits hashIdx c ds (Some (Inr s1)) = Some (Inr s')" by simp
    from Cons.IH [OF this run_inv_single [OF e1] False]
    have "subTree s' = []"
      and "\<forall>k. lstate.height s1 k \<noteq> Some 0 \<longrightarrow> lstate.height s' k = lstate.height s1 k"
      by simp_all
    with k1 show ?thesis by simp
  qed
qed

lemma dfs_keeps_assigned:
  "run_inv hashIdx st \<Longrightarrow> dfs n commits hashIdx c st = Some (Inr st')
     \<Longrightarrow> subTree st' = [] \<and> (\<forall>k. lstate.height st k \<noteq> Some 0 \<longrightarrow> lstate.height st' k = lstate.height st k)"
proof (induction n arbitrary: c st st')
  case 0
  then show ?case by simp
next
  case (Suc n)
  from Suc.prems(2) obtain cs where cs: "commits c = Some cs"
    by (cases "commits c") auto
  show ?case
  proof (cases "cs = [] \<or> lstate.height st (hashIdx c) \<noteq> Some 0")
    case True
    with Suc.prems(2) cs have "st' = flush hashIdx cs c st" by auto
    with Suc.prems(1) show ?thesis
      by (simp add: flush_subTree flush_keeps_assigned)
  next
    case False
    with Suc.prems(2) cs
    have loop: "dfs_loop n commits hashIdx c cs (Some (Inr st)) = Some (Inr st')" by simp
    from False Suc.prems(1) have inv: "run_inv hashIdx (st\<lparr>subTree := subTree st @ [c]\<rparr>)"
      by (simp add: run_inv_push)
    from False have ne: "cs \<noteq> []" by simp
    show ?thesis
      by (rule dfs_loop_keeps_assigned [OF Suc.IH loop inv ne])
  qed
qed


lemma run_inv_init: "run_inv hashIdx (init_state n)"
  by (simp add: run_inv_def init_state_def)

text \<open>
  Claim C4.  When \<open>dfs\<close> arrives at a commit that already has a height \<open>v \<noteq> 0\<close> (a commit
  reached by a second path), the call is a flush of the current run; the flush leaves the
  height of that commit at \<open>v\<close> and writes only entries of its own run (the elements of
  \<open>subTree\<close> after the first).  No later call of \<open>dfs\<close> changes the height either.
\<close>

theorem merge_commit_keeps_height:
  assumes "run_inv hashIdx st" and "commits c = Some cs"
    and "lstate.height st (hashIdx c) = Some v" and "v \<noteq> 0"
  shows "dfs (Suc n) commits hashIdx c st = Some (Inr (flush hashIdx cs c st))
    \<and> lstate.height (flush hashIdx cs c st) (hashIdx c) = Some v
    \<and> (\<forall>k. lstate.height (flush hashIdx cs c st) k \<noteq> lstate.height st k
           \<longrightarrow> k \<in> hashIdx ` set (tl (subTree st)))
    \<and> (\<forall>m d s s'. run_inv hashIdx s \<and> lstate.height s (hashIdx c) = Some v
           \<and> dfs m commits hashIdx d s = Some (Inr s')
           \<longrightarrow> run_inv hashIdx s' \<and> lstate.height s' (hashIdx c) = Some v)"
proof (intro conjI allI impI)
  from assms show "dfs (Suc n) commits hashIdx c st = Some (Inr (flush hashIdx cs c st))"
    by simp
  from assms show "lstate.height (flush hashIdx cs c st) (hashIdx c) = Some v"
    by (simp add: flush_keeps_assigned)
next
  fix k
  assume "lstate.height (flush hashIdx cs c st) k \<noteq> lstate.height st k"
  with assms(3,4) show "k \<in> hashIdx ` set (tl (subTree st))"
    by (auto simp: flush_height split: if_splits)
next
  fix m d s s'
  assume a: "run_inv hashIdx s \<and> lstate.height s (hashIdx c) = Some v
           \<and> dfs m commits hashIdx d s = Some (Inr s')"
  then have "subTree s' = []"
    and "\<forall>k. lstate.height s k \<noteq> Some 0 \<longrightarrow> lstate.height s' k = lstate.height s k"
    using dfs_keeps_assigned [of hashIdx s m commits d s'] by simp_all
  with a assms(4) show "run_inv hashIdx s'" and "lstate.height s' (hashIdx c) = Some v"
    by (simp_all add: run_inv_def)
qed

theorem merge_commit_keeps_height_witness:
  "run_inv [''a'' \<mapsto> 0, ''b'' \<mapsto> 1, ''c'' \<mapsto> 2, ''d'' \<mapsto> 3]
     \<lparr>lstate.height = (init_height 4)(Some 1 := Some 1, Some 3 := Some 1), subTree = [''a'', ''c'']\<rparr>
   \<and> [''a'' \<mapsto> [''b'', ''c''], ''b'' \<mapsto> [''d''], ''c'' \<mapsto> [''d''], ''d'' \<mapsto> []] ''d'' = Some []
   \<and> lstate.height \<lparr>lstate.height = (init_height 4)(Some 1 := Some 1, Some 3 := Some 1),
         subTree = [''a'', ''c'']\<rparr> ([''a'' \<mapsto> 0, ''b'' \<mapsto> 1, ''c'' \<mapsto> 2, ''d'' \<mapsto> 3] ''d'') = Some 1
   \<and> (1::int) \<noteq> 0
   \<and> lstate.height (flush [''a'' \<mapsto> 0, ''b'' \<mapsto> 1, ''c'' \<mapsto> 2, ''d'' \<mapsto> 3] [] ''d''
         \<lparr>lstate.height = (init_height 4)(Some 1 := Some 1, Some 3 := Some 1), subTree = [''a'', ''c'']\<rparr>)
        ([''a'' \<mapsto> 0, ''b'' \<mapsto> 1, ''c'' \<mapsto> 2, ''d'' \<mapsto> 3] ''d'') = Some 1
   \<and> lstate.height (flush [''a'' \<mapsto> 0, ''b'' \<mapsto> 1, ''c'' \<mapsto> 2, ''d'' \<mapsto> 3] [] ''d''
         \<lparr>lstate.height = (init_height 4)(Some 1 := Some 1, Some 3 := Some 1), subTree = [''a'', ''c'']\<rparr>)
        ([''a'' \<mapsto> 0, ''b'' \<mapsto> 1, ''c'' \<mapsto> 2, ''d'' \<mapsto> 3] ''c'') = Some 2"
proof -
  let ?hashIdx = "[''a'' \<mapsto> 0, ''b'' \<mapsto> 1, ''c'' \<mapsto> 2, ''d'' \<mapsto> 3] :: string \<rightharpoonup> nat"
  let ?commits = "[''a'' \<mapsto> [''b'', ''c''], ''b'' \<mapsto> [''d''], ''c'' \<mapsto> [''d''], ''d'' \<mapsto> []]
        :: string \<rightharpoonup> string list"
  let ?st = "\<lparr>lstate.height = (init_height 4)(Some 1 := Some 1, Some 3 := Some 1),
              subTree = [''a'', ''c'']\<rparr>"
  have 1: "run_inv ?hashIdx ?st" by (simp add: run_inv_def init_height_def)
  have 2: "?commits ''d'' = Some []" by simp
  have 3: "lstate.height ?st (?hashIdx ''d'') = Some 1" by simp
  have 4: "(1::int) \<noteq> 0" by simp
  have 5: "lstate.height (flush ?hashIdx [] ''d'' ?st) (?hashIdx ''c'') = Some 2"
    by code_simp
  from merge_commit_keeps_height [where hashIdx = ?hashIdx and st = ?st and commits = ?commits
      and c = "''d''" and cs = "[]" and v = 1 and n = 0, OF 1 2 3 4] 1 2 3 4 5
  show ?thesis by blast
qed

subsection \<open>The traversal reaches every descendant of the first commit\<close>

lemma assigned_subTree [simp]:
  "assigned hashIdx (st\<lparr>subTree := xs\<rparr>) d = assigned hashIdx st d"
  by (simp add: assigned_def)

lemma closed_except_subTree [simp]:
  "closed_except commits hashIdx S (st\<lparr>subTree := xs\<rparr>) = closed_except commits hashIdx S st"
  by (simp add: closed_except_def)

lemma closed_except_mono:
  "closed_except commits hashIdx S st \<Longrightarrow> S \<subseteq> T \<Longrightarrow> closed_except commits hashIdx T st"
  by (auto simp: closed_except_def)

lemma flush_assigned_mono:
  "assigned hashIdx st d \<Longrightarrow> assigned hashIdx (flush hashIdx cs c st) d"
  using rangeMax_nonneg [of "lstate.height st" "hashIdx (hd (subTree st @ [c]))" "hashIdx c"]
  by (simp add: assigned_def flush_height)

lemma flush_assigned_run:
  "x \<in> set (tl (subTree st)) \<Longrightarrow> assigned hashIdx (flush hashIdx cs c st) x"
  using rangeMax_nonneg [of "lstate.height st" "hashIdx (hd (subTree st @ [c]))" "hashIdx c"]
  by (simp add: assigned_def flush_height)

lemma flush_assigned_self:
  "cs = [] \<or> lstate.height st (hashIdx c) \<noteq> Some 0 \<Longrightarrow> assigned hashIdx (flush hashIdx cs c st) c"
  using rangeMax_nonneg [of "lstate.height st" "hashIdx (hd (subTree st @ [c]))" "hashIdx c"]
  by (auto simp: assigned_def flush_height)

lemma flush_newly_assigned:
  assumes "assigned hashIdx (flush hashIdx cs c st) d" and "\<not> assigned hashIdx st d"
    and "inj_on hashIdx (dom hashIdx)" and "d \<in> dom hashIdx"
  shows "d \<in> set (tl (subTree st)) \<or> (d = c \<and> cs = [])"
proof -
  from assms(1,2) have "hashIdx d \<in> hashIdx ` set (tl (subTree st)) \<or> (hashIdx d = hashIdx c \<and> cs = [])"
    by (auto simp: assigned_def flush_height split: if_splits)
  then show ?thesis
  proof
    assume "hashIdx d \<in> hashIdx ` set (tl (subTree st))"
    then obtain x where x: "x \<in> set (tl (subTree st))" "hashIdx d = hashIdx x" by auto
    with assms(4) have "x \<in> dom hashIdx" by (auto simp: dom_def)
    with x assms(3,4) have "d = x" by (auto dest: inj_onD)
    with x show ?thesis by simp
  next
    assume a: "hashIdx d = hashIdx c \<and> cs = []"
    with assms(4) have "c \<in> dom hashIdx" by (auto simp: dom_def)
    with a assms(3,4) have "d = c" by (auto dest: inj_onD)
    with a show ?thesis by simp
  qed
qed

lemma flush_closed_except:
  assumes cl: "closed_except commits hashIdx S st" and sub: "set (subTree st) \<subseteq> S"
    and inj: "inj_on hashIdx (dom hashIdx)" and c: "commits c = Some cs"
  shows "closed_except commits hashIdx S (flush hashIdx cs c st)"
  unfolding closed_except_def
proof (intro allI impI)
  fix d assume d: "d \<in> dom hashIdx \<and> d \<notin> S \<and> assigned hashIdx (flush hashIdx cs c st) d"
  show "\<exists>ds. commits d = Some ds \<and> (\<forall>e\<in>set ds. assigned hashIdx (flush hashIdx cs c st) e)"
  proof (cases "assigned hashIdx st d")
    case True
    with cl d obtain ds where "commits d = Some ds" "\<forall>e\<in>set ds. assigned hashIdx st e"
      by (auto simp: closed_except_def)
    then show ?thesis by (auto intro: flush_assigned_mono)
  next
    case False
    with d inj have "d \<in> set (tl (subTree st)) \<or> (d = c \<and> cs = [])"
      using flush_newly_assigned [of hashIdx cs c st d] by blast
    moreover have "d \<notin> set (tl (subTree st))"
      using d sub by (cases "subTree st") auto
    ultimately have "d = c \<and> cs = []" by simp
    with c show ?thesis by simp
  qed
qed

lemma dfs_subTree_loop:
  assumes IH: "\<And>d s s'. dfs n commits hashIdx d s = Some (Inr s') \<Longrightarrow> subTree s' = []"
  shows "dfs_loop n commits hashIdx c cs (Some (Inr s)) = Some (Inr s') \<Longrightarrow> cs \<noteq> []
     \<Longrightarrow> subTree s' = []"
proof (induction cs arbitrary: s)
  case Nil
  then show ?case by simp
next
  case (Cons d ds)
  let ?r = "dfs n commits hashIdx d (s\<lparr>subTree := subTree s @ [c]\<rparr>)"
  from Cons.prems(1) have loop: "dfs_loop n commits hashIdx c ds ?r = Some (Inr s')" by simp
  have "\<exists>s1. ?r = Some (Inr s1)"
  proof (rule ccontr)
    assume "\<not> ?thesis"
    then have "dfs_loop n commits hashIdx c ds ?r = ?r" by (intro dfs_loop_stuck) simp
    with loop \<open>\<not> (\<exists>s1. ?r = Some (Inr s1))\<close> show False by simp
  qed
  then obtain s1 where s1: "?r = Some (Inr s1)" ..
  show ?case
  proof (cases "ds = []")
    case True
    with loop s1 IH [OF s1] show ?thesis by simp
  next
    case False
    from loop s1 have "dfs_loop n commits hashIdx c ds (Some (Inr s1)) = Some (Inr s')" by simp
    from Cons.IH [OF this False] show ?thesis .
  qed
qed

lemma dfs_subTree:
  "dfs n commits hashIdx c st = Some (Inr st') \<Longrightarrow> subTree st' = []"
proof (induction n arbitrary: c st st')
  case 0
  then show ?case by simp
next
  case (Suc n)
  from Suc.prems obtain cs where cs: "commits c = Some cs"
    by (cases "commits c") auto
  show ?case
  proof (cases "cs = [] \<or> lstate.height st (hashIdx c) \<noteq> Some 0")
    case True
    with Suc.prems cs have "st' = flush hashIdx cs c st" by auto
    then show ?thesis by (simp add: flush_subTree)
  next
    case False
    with Suc.prems cs
    have loop: "dfs_loop n commits hashIdx c cs (Some (Inr st)) = Some (Inr st')" by simp
    from False have ne: "cs \<noteq> []" by simp
    show ?thesis by (rule dfs_subTree_loop [OF Suc.IH loop ne])
  qed
qed


lemma dfs_loop_invariant:
  assumes IH: "\<And>d s s'. P s \<Longrightarrow> dfs n commits hashIdx d s = Some (Inr s') \<Longrightarrow> P s'"
    and push: "\<And>s xs. P s \<Longrightarrow> P (s\<lparr>subTree := xs\<rparr>)"
  shows "P s \<Longrightarrow> dfs_loop n commits hashIdx c cs (Some (Inr s)) = Some (Inr s') \<Longrightarrow> P s'"
proof (induction cs arbitrary: s)
  case Nil
  then show ?case by simp
next
  case (Cons d ds)
  let ?r = "dfs n commits hashIdx d (s\<lparr>subTree := subTree s @ [c]\<rparr>)"
  from Cons.prems(2) have loop: "dfs_loop n commits hashIdx c ds ?r = Some (Inr s')" by simp
  have "\<exists>s1. ?r = Some (Inr s1)"
  proof (rule ccontr)
    assume "\<not> ?thesis"
    then have "dfs_loop n commits hashIdx c ds ?r = ?r" by (intro dfs_loop_stuck) simp
    with loop \<open>\<not> (\<exists>s1. ?r = Some (Inr s1))\<close> show False by simp
  qed
  then obtain s1 where s1: "?r = Some (Inr s1)" ..
  from Cons.prems(1) have "P (s\<lparr>subTree := subTree s @ [c]\<rparr>)" by (rule push)
  then have "P s1" using s1 by (rule IH)
  moreover from loop s1 have "dfs_loop n commits hashIdx c ds (Some (Inr s1)) = Some (Inr s')"
    by simp
  ultimately show ?case by (rule Cons.IH)
qed

lemma dfs_invariant:
  assumes fl: "\<And>cs c s. P s \<Longrightarrow> P (flush hashIdx cs c s)"
    and push: "\<And>s xs. P s \<Longrightarrow> P (s\<lparr>subTree := xs\<rparr>)"
  shows "P st \<Longrightarrow> dfs n commits hashIdx c st = Some (Inr st') \<Longrightarrow> P st'"
proof (induction n arbitrary: c st st')
  case 0
  then show ?case by simp
next
  case (Suc n)
  from Suc.prems(2) obtain cs where cs: "commits c = Some cs"
    by (cases "commits c") auto
  show ?case
  proof (cases "cs = [] \<or> lstate.height st (hashIdx c) \<noteq> Some 0")
    case True
    with Suc.prems(2) cs have "st' = flush hashIdx cs c st" by auto
    with Suc.prems(1) show ?thesis by (simp add: fl)
  next
    case False
    with Suc.prems(2) cs
    have loop: "dfs_loop n commits hashIdx c cs (Some (Inr st)) = Some (Inr st')" by simp
    show ?thesis
      by (rule dfs_loop_invariant [where P = P, OF Suc.IH push Suc.prems(1) loop])
  qed
qed

lemma dfs_assigned_mono:
  "assigned hashIdx st d \<Longrightarrow> dfs n commits hashIdx c st = Some (Inr st')
     \<Longrightarrow> assigned hashIdx st' d"
  by (rule dfs_invariant [where P = "\<lambda>s. assigned hashIdx s d"])
     (simp_all add: flush_assigned_mono)

lemma dfs_loop_assigned_mono:
  "assigned hashIdx s d \<Longrightarrow> dfs_loop n commits hashIdx c cs (Some (Inr s)) = Some (Inr s')
     \<Longrightarrow> assigned hashIdx s' d"
  by (rule dfs_loop_invariant [where P = "\<lambda>s. assigned hashIdx s d"])
     (simp_all add: dfs_assigned_mono)

lemma dfs_loop_visits:
  assumes IH: "\<And>d s s' S. dfs n commits hashIdx d s = Some (Inr s') \<Longrightarrow> subTree s \<noteq> []
        \<Longrightarrow> set (subTree s) \<subseteq> S \<Longrightarrow> closed_except commits hashIdx S s
        \<Longrightarrow> assigned hashIdx s' d \<and> (\<forall>x\<in>set (tl (subTree s)). assigned hashIdx s' x)
            \<and> closed_except commits hashIdx S s'"
  shows "dfs_loop n commits hashIdx c cs (Some (Inr s)) = Some (Inr s') \<Longrightarrow> cs \<noteq> []
     \<Longrightarrow> set (subTree s) \<subseteq> T \<Longrightarrow> c \<in> T \<Longrightarrow> closed_except commits hashIdx T s
     \<Longrightarrow> (\<forall>e\<in>set cs. assigned hashIdx s' e)
         \<and> (\<forall>x\<in>set (tl (subTree s @ [c])). assigned hashIdx s' x)
         \<and> closed_except commits hashIdx T s'"
proof (induction cs arbitrary: s)
  case Nil
  then show ?case by simp
next
  case (Cons d ds)
  let ?s = "s\<lparr>subTree := subTree s @ [c]\<rparr>"
  let ?r = "dfs n commits hashIdx d ?s"
  from Cons.prems(1) have loop: "dfs_loop n commits hashIdx c ds ?r = Some (Inr s')" by simp
  have "\<exists>s1. ?r = Some (Inr s1)"
  proof (rule ccontr)
    assume "\<not> ?thesis"
    then have "dfs_loop n commits hashIdx c ds ?r = ?r" by (intro dfs_loop_stuck) simp
    with loop \<open>\<not> (\<exists>s1. ?r = Some (Inr s1))\<close> show False by simp
  qed
  then obtain s1 where s1: "?r = Some (Inr s1)" ..
  have "subTree ?s \<noteq> []" by simp
  moreover have "set (subTree ?s) \<subseteq> T" using Cons.prems(3,4) by simp
  moreover have "closed_except commits hashIdx T ?s" using Cons.prems(5) by simp
  ultimately have 1: "assigned hashIdx s1 d" "\<forall>x\<in>set (tl (subTree ?s)). assigned hashIdx s1 x"
    "closed_except commits hashIdx T s1"
    using IH [OF s1, of T] by simp_all
  have e1: "subTree s1 = []" using s1 by (rule dfs_subTree)
  show ?case
  proof (cases "ds = []")
    case True
    with loop s1 1 show ?thesis by simp
  next
    case False
    from loop s1 have l2: "dfs_loop n commits hashIdx c ds (Some (Inr s1)) = Some (Inr s')" by simp
    have "set (subTree s1) \<subseteq> T" using e1 by simp
    from Cons.IH [OF l2 False this Cons.prems(4) 1(3)]
    have 2: "\<forall>e\<in>set ds. assigned hashIdx s' e" "closed_except commits hashIdx T s'"
      by simp_all
    have m: "assigned hashIdx s1 x \<Longrightarrow> assigned hashIdx s' x" for x
      by (rule dfs_loop_assigned_mono [OF _ l2])
    from 1 2 m show ?thesis by simp
  qed
qed

lemma dfs_visits:
  assumes inj: "inj_on hashIdx (dom hashIdx)"
  shows "dfs n commits hashIdx c st = Some (Inr st') \<Longrightarrow> subTree st \<noteq> []
     \<Longrightarrow> set (subTree st) \<subseteq> S \<Longrightarrow> closed_except commits hashIdx S st
     \<Longrightarrow> assigned hashIdx st' c \<and> (\<forall>x\<in>set (tl (subTree st)). assigned hashIdx st' x)
         \<and> closed_except commits hashIdx S st'"
proof (induction n arbitrary: c st st' S)
  case 0
  then show ?case by simp
next
  case (Suc n)
  from Suc.prems(1) obtain cs where cs: "commits c = Some cs"
    by (cases "commits c") auto
  show ?case
  proof (cases "cs = [] \<or> lstate.height st (hashIdx c) \<noteq> Some 0")
    case True
    with Suc.prems(1) cs have st': "st' = flush hashIdx cs c st" by auto
    have "assigned hashIdx (flush hashIdx cs c st) c"
      using True by (rule flush_assigned_self)
    moreover have "\<forall>x\<in>set (tl (subTree st)). assigned hashIdx (flush hashIdx cs c st) x"
      by (blast intro: flush_assigned_run)
    moreover have "closed_except commits hashIdx S (flush hashIdx cs c st)"
      using Suc.prems(4,3) inj cs by (rule flush_closed_except)
    ultimately show ?thesis unfolding st' by blast
  next
    case False
    with Suc.prems(1) cs
    have loop: "dfs_loop n commits hashIdx c cs (Some (Inr st)) = Some (Inr st')" by simp
    from False have ne: "cs \<noteq> []" by simp
    have sub: "set (subTree st) \<subseteq> insert c S" using Suc.prems(3) by auto
    have cin: "c \<in> insert c S" by simp
    have cl: "closed_except commits hashIdx (insert c S) st"
      using Suc.prems(4) by (rule closed_except_mono) auto
    have "(\<forall>e\<in>set cs. assigned hashIdx st' e)
         \<and> (\<forall>x\<in>set (tl (subTree st @ [c])). assigned hashIdx st' x)
         \<and> closed_except commits hashIdx (insert c S) st'"
      using loop ne sub cin cl
    proof (rule dfs_loop_visits [rotated])
      fix d s s' S
      assume "dfs n commits hashIdx d s = Some (Inr s')" "subTree s \<noteq> []"
        "set (subTree s) \<subseteq> S" "closed_except commits hashIdx S s"
      then show "assigned hashIdx s' d \<and> (\<forall>x\<in>set (tl (subTree s)). assigned hashIdx s' x)
            \<and> closed_except commits hashIdx S s'"
        by (rule Suc.IH)
    qed
    then have 1: "\<forall>e\<in>set cs. assigned hashIdx st' e"
      and 2: "\<forall>x\<in>set (tl (subTree st @ [c])). assigned hashIdx st' x"
      and 3: "closed_except commits hashIdx (insert c S) st'"
      by blast+
    from Suc.prems(2) obtain y ys where "subTree st = y # ys" by (cases "subTree st") auto
    with 2 have 4: "assigned hashIdx st' c" and 5: "\<forall>x\<in>set (tl (subTree st)). assigned hashIdx st' x"
      by simp_all
    have "closed_except commits hashIdx S st'"
      unfolding closed_except_def
    proof (intro allI impI)
      fix d assume d: "d \<in> dom hashIdx \<and> d \<notin> S \<and> assigned hashIdx st' d"
      show "\<exists>ds. commits d = Some ds \<and> (\<forall>e\<in>set ds. assigned hashIdx st' e)"
      proof (cases "d = c")
        case True
        with cs 1 show ?thesis by simp
      next
        case False
        with d have "d \<in> dom hashIdx \<and> d \<notin> insert c S \<and> assigned hashIdx st' d" by simp
        with 3 show ?thesis unfolding closed_except_def by blast
      qed
    qed
    with 4 5 show ?thesis by simp
  qed
qed


lemma hashIdx_of_inj: "inj_on (hashIdx_of xs) (dom (hashIdx_of xs))"
proof (rule inj_onI)
  fix d e assume "d \<in> dom (hashIdx_of xs)" "e \<in> dom (hashIdx_of xs)"
    and eq: "hashIdx_of xs d = hashIdx_of xs e"
  then obtain i where d: "hashIdx_of xs d = Some i" by auto
  with eq have e: "hashIdx_of xs e = Some i" by simp
  from hashIdx_of_Some [OF d] hashIdx_of_Some [OF e] show "d = e" by simp
qed

lemma dom_hashIdx_of: "dom (hashIdx_of xs) = sorted_commit.hash ` set xs"
  using hashIdx_of_None [of xs] by (auto simp: dom_def)

lemma init_not_assigned:
  "hashIdx d = Some i \<Longrightarrow> i < n \<Longrightarrow> \<not> assigned hashIdx (init_state n) d"
  by (simp add: assigned_def init_state_def init_height_def)

lemma heights_ok_init: "heights_ok n (init_height n)"
  by (simp add: heights_ok_def init_height_def)

lemma heights_ok_flush:
  "heights_ok n (lstate.height s) \<Longrightarrow> heights_ok n (lstate.height (flush hashIdx cs c s))"
  using rangeMax_nonneg [of "lstate.height s" "hashIdx (hd (subTree s @ [c]))" "hashIdx c"]
  by (simp add: heights_ok_def flush_height)

lemma heights_ok_dfs:
  "heights_ok n (lstate.height st) \<Longrightarrow> dfs k commits hashIdx c st = Some (Inr st')
     \<Longrightarrow> heights_ok n (lstate.height st')"
  by (rule dfs_invariant [where P = "\<lambda>s. heights_ok n (lstate.height s)"])
     (simp_all add: heights_ok_flush)

lemma traversal_reaches:
  assumes run: "dfs fuel commits hashIdx root (init_state n) = Some (Inr st)"
    and inj: "inj_on hashIdx (dom hashIdx)"
    and range: "\<forall>d i. hashIdx d = Some i \<longrightarrow> i < n"
    and H: "\<forall>(c, d)\<in>child_rel commits. d \<in> dom hashIdx"
    and root: "root \<in> dom hashIdx"
    and reach: "(root, d) \<in> (child_rel commits)\<^sup>*"
  shows "d \<in> dom hashIdx \<and> commits d \<noteq> None \<and> (d = root \<or> assigned hashIdx st d)"
proof -
  from run obtain k where k: "fuel = Suc k" by (cases fuel) auto
  from run k obtain cs where cs: "commits root = Some cs"
    by (cases "commits root") auto
  from root range obtain i where i: "hashIdx root = Some i" "i < n" by auto
  then have h0: "lstate.height (init_state n) (hashIdx root) = Some 0"
    by (simp add: init_state_def init_height_def)
  have cl0: "closed_except commits hashIdx {root} (init_state n)"
    using range by (auto simp: closed_except_def dest: init_not_assigned)
  have sub0: "set (subTree (init_state n)) \<subseteq> {root}" by (simp add: init_state_def)
  have A: "(\<forall>e\<in>set cs. assigned hashIdx st e) \<and> closed_except commits hashIdx {root} st"
  proof (cases "cs = []")
    case True
    with run k cs have "st = flush hashIdx cs root (init_state n)" by simp
    moreover have "closed_except commits hashIdx {root} (flush hashIdx cs root (init_state n))"
      using cl0 sub0 inj cs by (rule flush_closed_except)
    ultimately show ?thesis using True by simp
  next
    case False
    with run k cs h0
    have loop: "dfs_loop k commits hashIdx root cs (Some (Inr (init_state n))) = Some (Inr st)"
      by simp
    have rin: "root \<in> {root}" by simp
    have "(\<forall>e\<in>set cs. assigned hashIdx st e)
         \<and> (\<forall>x\<in>set (tl (subTree (init_state n) @ [root])). assigned hashIdx st x)
         \<and> closed_except commits hashIdx {root} st"
      using loop False sub0 rin cl0
    proof (rule dfs_loop_visits [rotated])
      fix d s s' S
      assume "dfs k commits hashIdx d s = Some (Inr s')" "subTree s \<noteq> []"
        "set (subTree s) \<subseteq> S" "closed_except commits hashIdx S s"
      then show "assigned hashIdx s' d \<and> (\<forall>x\<in>set (tl (subTree s)). assigned hashIdx s' x)
            \<and> closed_except commits hashIdx S s'"
        by (rule dfs_visits [OF inj])
    qed
    then show ?thesis by blast
  qed
  from reach show ?thesis
  proof (induction rule: rtrancl_induct)
    case base
    with root cs show ?case by simp
  next
    case (step y z)
    from step.hyps(2) H have zdom: "z \<in> dom hashIdx" by auto
    from step.hyps(2) obtain ys where ys: "commits y = Some ys" "z \<in> set ys"
      by (auto simp: child_rel_def)
    have az: "z = root \<or> assigned hashIdx st z"
    proof (cases "y = root")
      case True
      with ys cs A show ?thesis by auto
    next
      case False
      with step.IH have "y \<in> dom hashIdx \<and> y \<notin> {root} \<and> assigned hashIdx st y" by simp
      with A obtain ys' where "commits y = Some ys'" "\<forall>e\<in>set ys'. assigned hashIdx st e"
        unfolding closed_except_def by blast
      with ys show ?thesis by simp
    qed
    have "commits z \<noteq> None"
    proof (cases "z = root")
      case True
      with cs show ?thesis by simp
    next
      case False
      with az zdom have "z \<in> dom hashIdx \<and> z \<notin> {root} \<and> assigned hashIdx st z" by simp
      with A obtain zs where "commits z = Some zs"
        unfolding closed_except_def by blast
      then show ?thesis by simp
    qed
    with zdom az show ?case by simp
  qed
qed


lemma layout_reaches:
  assumes run: "getCommitGraph fuel commits orderedCommits = Some (Inr answer)"
    and dist: "distinct (map sorted_commit.hash orderedCommits)"
    and H: "\<forall>(c, d)\<in>child_rel commits. d \<in> sorted_commit.hash ` set orderedCommits"
    and reach: "(sorted_commit.hash (orderedCommits ! 0), d) \<in> (child_rel commits)\<^sup>*"
  shows "commits d \<noteq> None"
    and "\<forall>i<length orderedCommits. (\<exists>v\<ge>0. layout_entry.height (answer ! i) = Some v)
        \<and> (d = sorted_commit.hash (orderedCommits ! i) \<longrightarrow> (\<exists>v\<ge>1. layout_entry.height (answer ! i) = Some v))"
    and "length answer = length orderedCommits"
proof -
  let ?hashIdx = "hashIdx_of orderedCommits" and ?n = "length orderedCommits"
  from run obtain c0 cs st where oc: "orderedCommits = c0 # cs"
    and dfs: "dfs fuel commits ?hashIdx (sorted_commit.hash c0) (init_state ?n) = Some (Inr st)"
    and ans: "answer = map (\<lambda>commit.
        \<lparr>layout_entry.hash = sorted_commit.hash commit,
         children = commits (sorted_commit.hash commit),
         height = ((lstate.height st)(Some 0 := Some 1)) (?hashIdx (sorted_commit.hash commit))\<rparr>)
        orderedCommits"
    by (rule getCommitGraph_Inr)
  let ?root = "sorted_commit.hash c0"
  from oc have root0: "sorted_commit.hash (orderedCommits ! 0) = ?root" by simp
  have range: "\<forall>d i. ?hashIdx d = Some i \<longrightarrow> i < ?n"
    by (simp add: hashIdx_of_Some)
  have H': "\<forall>(c, d)\<in>child_rel commits. d \<in> dom ?hashIdx"
    using H by (simp add: dom_hashIdx_of)
  have root: "?root \<in> dom ?hashIdx"
    using oc by (simp add: dom_hashIdx_of)
  from reach root0 have reach': "(?root, d) \<in> (child_rel commits)\<^sup>*" by simp
  from traversal_reaches [OF dfs hashIdx_of_inj range H' root reach']
  have d: "commits d \<noteq> None" "d = ?root \<or> assigned ?hashIdx st d" by simp_all
  show "commits d \<noteq> None" by fact
  show "length answer = length orderedCommits" using ans by simp
  have ok: "heights_ok ?n (lstate.height st)"
    using dfs by (rule heights_ok_dfs [rotated]) (simp add: init_state_def heights_ok_init)
  show "\<forall>i<length orderedCommits. (\<exists>v\<ge>0. layout_entry.height (answer ! i) = Some v)
        \<and> (d = sorted_commit.hash (orderedCommits ! i) \<longrightarrow> (\<exists>v\<ge>1. layout_entry.height (answer ! i) = Some v))"
  proof (intro allI impI)
    fix i assume i: "i < length orderedCommits"
    with dist have idx: "?hashIdx (sorted_commit.hash (orderedCommits ! i)) = Some i"
      by (rule hashIdx_of_distinct)
    with ans i have h: "layout_entry.height (answer ! i) = ((lstate.height st)(Some 0 := Some 1)) (Some i)"
      by simp
    from ok i obtain v where v: "lstate.height st (Some i) = Some v" "0 \<le> v"
      by (auto simp: heights_ok_def)
    show "(\<exists>v\<ge>0. layout_entry.height (answer ! i) = Some v)
        \<and> (d = sorted_commit.hash (orderedCommits ! i) \<longrightarrow> (\<exists>v\<ge>1. layout_entry.height (answer ! i) = Some v))"
    proof (cases "i = 0")
      case True
      with h show ?thesis by simp
    next
      case False
      have "1 \<le> v" if "d = sorted_commit.hash (orderedCommits ! i)"
      proof -
        from that idx have di: "?hashIdx d = Some i" by simp
        from oc dist have "?hashIdx ?root = Some 0"
          using hashIdx_of_distinct [of orderedCommits 0] by simp
        with di False have "d \<noteq> ?root" by auto
        with d(2) di v have "v \<noteq> 0" by (simp add: assigned_def)
        with v show ?thesis by simp
      qed
      with False h v show ?thesis by simp
    qed
  qed
qed

text \<open>
  Claim C3, as the code has it.  In every layout produced for commits with pairwise
  different hashes whose children all occur in the order, every height is a number that is
  not negative, and every commit that can be reached from the commit at row 0 through the
  child relation has height at least 1.  A commit that cannot be reached keeps the initial 0.
\<close>

theorem reachable_commit_height_positive:
  assumes "getCommitGraph fuel commits orderedCommits = Some (Inr answer)"
    and "distinct (map sorted_commit.hash orderedCommits)"
    and "\<forall>(c, d)\<in>child_rel commits. d \<in> sorted_commit.hash ` set orderedCommits"
  shows "length answer = length orderedCommits
    \<and> (\<forall>i<length orderedCommits. \<exists>v\<ge>0. layout_entry.height (answer ! i) = Some v)
    \<and> (\<forall>i<length orderedCommits.
          (sorted_commit.hash (orderedCommits ! 0), sorted_commit.hash (orderedCommits ! i))
             \<in> (child_rel commits)\<^sup>*
          \<longrightarrow> (\<exists>v\<ge>1. layout_entry.height (answer ! i) = Some v))"
proof (intro conjI allI impI)
  have r0: "(sorted_commit.hash (orderedCommits ! 0), sorted_commit.hash (orderedCommits ! 0))
      \<in> (child_rel commits)\<^sup>*" by simp
  show "length answer = length orderedCommits"
    using layout_reaches(3) [OF assms r0] .
  fix i assume i: "i < length orderedCommits"
  from layout_reaches(2) [OF assms r0] i
  show "\<exists>v\<ge>0. layout_entry.height (answer ! i) = Some v" by blast
  assume "(sorted_commit.hash (orderedCommits ! 0), sorted_commit.hash (orderedCommits ! i))
             \<in> (child_rel commits)\<^sup>*"
  from layout_reaches(2) [OF assms this] i
  show "\<exists>v\<ge>1. layout_entry.height (answer ! i) = Some v" by blast
qed

text \<open>
  Claim C9, as the code has it.  A commit that is not a key of the child mapping is not
  treated as a commit without children: when such a commit can be reached from the commit
  at row 0, no layout is produced, whatever the call depth; for a finite acyclic child
  relation the computation ends with a \<open>TypeError\<close>.
\<close>

theorem absent_commit_throws:
  assumes "distinct (map sorted_commit.hash orderedCommits)"
    and "\<forall>(c, d)\<in>child_rel commits. d \<in> sorted_commit.hash ` set orderedCommits"
    and "(sorted_commit.hash (orderedCommits ! 0), d) \<in> (child_rel commits)\<^sup>*"
    and "commits d = None"
  shows "(\<forall>fuel answer. getCommitGraph fuel commits orderedCommits \<noteq> Some (Inr answer))
    \<and> (finite (dom commits) \<and> acyclic (child_rel commits)
        \<longrightarrow> (\<exists>n. \<forall>fuel\<ge>n. getCommitGraph fuel commits orderedCommits = Some (Inl TypeError)))"
proof (intro conjI allI impI)
  show no: "getCommitGraph fuel commits orderedCommits \<noteq> Some (Inr answer)" for fuel answer
  proof
    assume "getCommitGraph fuel commits orderedCommits = Some (Inr answer)"
    from layout_reaches(1) [OF this assms(1,2,3)] assms(4) show False by simp
  qed
  assume "finite (dom commits) \<and> acyclic (child_rel commits)"
  then obtain n where n: "\<forall>fuel\<ge>n. getCommitGraph fuel commits orderedCommits \<noteq> None"
    using getCommitGraph_enough_fuel by blast
  have "\<forall>fuel\<ge>n. getCommitGraph fuel commits orderedCommits = Some (Inl TypeError)"
  proof (intro allI impI)
    fix fuel assume "n \<le> fuel"
    with n obtain r where r: "getCommitGraph fuel commits orderedCommits = Some r" by auto
    show "getCommitGraph fuel commits orderedCommits = Some (Inl TypeError)"
    proof (cases r)
      case (Inl e)
      with r show ?thesis by (cases e) simp
    next
      case (Inr answer)
      with r no show ?thesis by simp
    qed
  qed
  then show "\<exists>n. \<forall>fuel\<ge>n. getCommitGraph fuel commits orderedCommits = Some (Inl TypeError)" ..
qed


theorem reachable_commit_height_positive_witness:
  "getCommitGraph 3 [''a'' \<mapsto> [''b'', ''c''], ''b'' \<mapsto> [], ''c'' \<mapsto> []]
     [\<lparr>sorted_commit.hash = ''a'', date = 10\<rparr>, \<lparr>sorted_commit.hash = ''b'', date = 20\<rparr>,
      \<lparr>sorted_commit.hash = ''c'', date = 30\<rparr>]
   = Some (Inr [\<lparr>layout_entry.hash = ''a'', children = Some [''b'', ''c''], height = Some 1\<rparr>,
                \<lparr>layout_entry.hash = ''b'', children = Some [], height = Some 1\<rparr>,
                \<lparr>layout_entry.hash = ''c'', children = Some [], height = Some 2\<rparr>])
   \<and> distinct (map sorted_commit.hash
        [\<lparr>sorted_commit.hash = ''a'', date = 10\<rparr>, \<lparr>sorted_commit.hash = ''b'', date = 20\<rparr>,
         \<lparr>sorted_commit.hash = ''c'', date = 30\<rparr>])
   \<and> child_rel [''a'' \<mapsto> [''b'', ''c''], ''b'' \<mapsto> [], ''c'' \<mapsto> []] = {(''a'', ''b''), (''a'', ''c'')}
   \<and> (''a'', ''c'') \<in> (child_rel [''a'' \<mapsto> [''b'', ''c''], ''b'' \<mapsto> [], ''c'' \<mapsto> []])\<^sup>*
   \<and> (\<exists>v\<ge>1. layout_entry.height
         ([\<lparr>layout_entry.hash = ''a'', children = Some [''b'', ''c''], height = Some 1\<rparr>,
           \<lparr>layout_entry.hash = ''b'', children = Some [], height = Some 1\<rparr>,
           \<lparr>layout_entry.hash = ''c'', children = Some [], height = Some 2\<rparr>] ! 2) = Some v)"
proof -
  let ?commits = "[''a'' \<mapsto> [''b'', ''c''], ''b'' \<mapsto> [], ''c'' \<mapsto> []] :: string \<rightharpoonup> string list"
  let ?oc = "[\<lparr>sorted_commit.hash = ''a'', date = 10\<rparr>, \<lparr>sorted_commit.hash = ''b'', date = 20\<rparr>,
      \<lparr>sorted_commit.hash = ''c'', date = 30\<rparr>]"
  let ?answer = "[\<lparr>layout_entry.hash = ''a'', children = Some [''b'', ''c''], height = Some 1\<rparr>,
                \<lparr>layout_entry.hash = ''b'', children = Some [], height = Some 1\<rparr>,
                \<lparr>layout_entry.hash = ''c'', children = Some [], height = Some 2\<rparr>]"
  have run: "getCommitGraph 3 ?commits ?oc = Some (Inr ?answer)" by code_simp
  have d: "distinct (map sorted_commit.hash ?oc)" by simp
  have rel: "child_rel ?commits = {(''a'', ''b''), (''a'', ''c'')}"
    by (auto simp: child_rel_def split: if_splits)
  have H: "\<forall>(c, d)\<in>child_rel ?commits. d \<in> sorted_commit.hash ` set ?oc"
    unfolding rel by simp
  have reach: "(''a'', ''c'') \<in> (child_rel ?commits)\<^sup>*"
    unfolding rel by blast
  have i: "2 < length ?oc" by simp
  from reach have reach': "(sorted_commit.hash (?oc ! 0), sorted_commit.hash (?oc ! 2))
      \<in> (child_rel ?commits)\<^sup>*" by simp
  from reachable_commit_height_positive [OF run d H] i reach'
  have "\<exists>v\<ge>1. layout_entry.height (?answer ! 2) = Some v"
    by blast
  with run d rel reach show ?thesis by blast
qed

text \<open>
  Two commits without children and without parents: the second one is never visited and
  its height stays 0.
\<close>

theorem unreached_commit_height_zero:
  "getCommitGraph 2 [''a'' \<mapsto> [], ''b'' \<mapsto> []]
     [\<lparr>sorted_commit.hash = ''a'', date = 10\<rparr>, \<lparr>sorted_commit.hash = ''b'', date = 20\<rparr>]
   = Some (Inr [\<lparr>layout_entry.hash = ''a'', children = Some [], height = Some 1\<rparr>,
                \<lparr>layout_entry.hash = ''b'', children = Some [], height = Some 0\<rparr>])"
  by code_simp

theorem absent_commit_throws_witness:
  "distinct (map sorted_commit.hash
      [\<lparr>sorted_commit.hash = ''a'', date = 10\<rparr>, \<lparr>sorted_commit.hash = ''b'', date = 20\<rparr>])
   \<and> child_rel [''a'' \<mapsto> [''b'']] = {(''a'', ''b'')}
   \<and> (''a'', ''b'') \<in> (child_rel [''a'' \<mapsto> [''b'']])\<^sup>*
   \<and> [''a'' \<mapsto> [''b'']] ''b'' = None
   \<and> (\<forall>fuel answer. getCommitGraph fuel [''a'' \<mapsto> [''b'']]
         [\<lparr>sorted_commit.hash = ''a'', date = 10\<rparr>, \<lparr>sorted_commit.hash = ''b'', date = 20\<rparr>]
         \<noteq> Some (Inr answer))"
proof -
  let ?commits = "[''a'' \<mapsto> [''b'']] :: string \<rightharpoonup> string list"
  let ?oc = "[\<lparr>sorted_commit.hash = ''a'', date = 10\<rparr>, \<lparr>sorted_commit.hash = ''b'', date = 20\<rparr>]"
  have d: "distinct (map sorted_commit.hash ?oc)" by simp
  have rel: "child_rel ?commits = {(''a'', ''b'')}"
    by (auto simp: child_rel_def split: if_splits)
  have H: "\<forall>(c, d)\<in>child_rel ?commits. d \<in> sorted_commit.hash ` set ?oc"
    unfolding rel by simp
  have reach: "(''a'', ''b'') \<in> (child_rel ?commits)\<^sup>*"
    unfolding rel by auto
  then have reach': "(sorted_commit.hash (?oc ! 0), ''b'') \<in> (child_rel ?commits)\<^sup>*"
    by simp
  have n: "?commits ''b'' = None" by simp
  from absent_commit_throws [OF d H reach' n] d rel reach n show ?thesis by blast
qed

text \<open>
  The child \<open>b\<close> of \<open>a\<close> is not a key of the mapping: the layout computation throws.
\<close>

theorem absent_commit_TypeError:
  "getCommitGraph 2 [''a'' \<mapsto> [''b'']]
     [\<lparr>sorted_commit.hash = ''a'', date = 10\<rparr>, \<lparr>sorted_commit.hash = ''b'', date = 20\<rparr>]
   = Some (Inl TypeError)"
  by code_simp

subsection \<open>Lanes of different runs\<close>

lemma dfs_runs_loop_stuck:
  "\<forall>sl. r \<noteq> Some (Inr sl) \<Longrightarrow> dfs_runs_loop n commits hashIdx c cs r = r"
  by (induction cs) (auto split: option.splits sum.splits)

lemma dfs_runs_loop_erase:
  assumes IH: "\<And>d sl. erase_log (dfs_runs n commits hashIdx d sl) = dfs n commits hashIdx d (fst sl)"
  shows "erase_log (dfs_runs_loop n commits hashIdx c cs r)
     = dfs_loop n commits hashIdx c cs (erase_log r)"
proof (induction cs arbitrary: r)
  case Nil
  then show ?case by simp
next
  case (Cons d ds)
  show ?case
  proof (cases r rule: erase_log.cases)
    case 1
    then show ?thesis by (simp add: dfs_runs_loop_stuck dfs_loop_stuck)
  next
    case (2 e)
    then show ?thesis by (simp add: dfs_runs_loop_stuck dfs_loop_stuck)
  next
    case (3 sl)
    obtain s l where sl: "sl = (s, l)" by (cases sl)
    have "erase_log (dfs_runs_loop n commits hashIdx c (d # ds) r)
        = erase_log (dfs_runs_loop n commits hashIdx c ds
            (dfs_runs n commits hashIdx d (s\<lparr>subTree := subTree s @ [c]\<rparr>, l)))"
      using 3 sl by simp
    also have "\<dots> = dfs_loop n commits hashIdx c ds
        (erase_log (dfs_runs n commits hashIdx d (s\<lparr>subTree := subTree s @ [c]\<rparr>, l)))"
      by (rule Cons.IH)
    also have "\<dots> = dfs_loop n commits hashIdx c ds
        (dfs n commits hashIdx d (s\<lparr>subTree := subTree s @ [c]\<rparr>))"
      by (simp add: IH)
    also have "\<dots> = dfs_loop n commits hashIdx c (d # ds) (erase_log r)"
      using 3 sl by simp
    finally show ?thesis .
  qed
qed

lemma dfs_runs_erase:
  "erase_log (dfs_runs n commits hashIdx c sl) = dfs n commits hashIdx c (fst sl)"
proof (induction n arbitrary: c sl)
  case 0
  then show ?case by simp
next
  case (Suc n)
  show ?case
  proof (cases "commits c")
    case None
    then show ?thesis by simp
  next
    case (Some cs)
    show ?thesis
    proof (cases "cs = [] \<or> lstate.height (fst sl) (hashIdx c) \<noteq> Some 0")
      case True
      with Some show ?thesis by auto
    next
      case False
      have "erase_log (dfs_runs_loop n commits hashIdx c cs (Some (Inr sl)))
        = dfs_loop n commits hashIdx c cs (erase_log (Some (Inr sl)))"
        using Suc.IH by (rule dfs_runs_loop_erase)
      with Some False show ?thesis by simp
    qed
  qed
qed

lemma dfs_runs_Inr:
  "dfs_runs n commits hashIdx c (st, l) = Some (Inr (st', l'))
     \<Longrightarrow> dfs n commits hashIdx c st = Some (Inr st')"
  using dfs_runs_erase [of n commits hashIdx c "(st, l)"] by simp


lemma fold_max_mem:
  "i \<in> set xs \<Longrightarrow> h (Some i) = Some v
     \<Longrightarrow> v \<le> fold (\<lambda>idx newHeight.
               (case h (Some idx) of None \<Rightarrow> newHeight
                | Some v \<Rightarrow> if v > newHeight then v else newHeight)) xs (acc::int)"
proof (induction xs arbitrary: acc)
  case Nil
  then show ?case by simp
next
  case (Cons x xs)
  let ?f = "\<lambda>idx newHeight. (case h (Some idx) of None \<Rightarrow> newHeight
                | Some v \<Rightarrow> if v > newHeight then v else newHeight)"
  show ?case
  proof (cases "i = x")
    case True
    with Cons.prems have "v \<le> ?f x acc" by simp
    also have "\<dots> \<le> fold ?f xs (?f x acc)" by (rule fold_max_ge)
    finally show ?thesis by simp
  next
    case False
    with Cons.prems have "i \<in> set xs" by simp
    then have "v \<le> fold ?f xs (?f x acc)" using Cons.prems(2) by (rule Cons.IH)
    then show ?thesis by simp
  qed
qed

lemma rangeMax_ge:
  "a \<le> i \<Longrightarrow> i \<le> b \<Longrightarrow> h (Some i) = Some v \<Longrightarrow> v \<le> rangeMax h (Some a) (Some b)"
proof -
  assume "a \<le> i" "i \<le> b" and h: "h (Some i) = Some v"
  then have "i \<in> set [a..<Suc b]" by auto
  then show ?thesis
    unfolding rangeMax_def option.case using h by (rule fold_max_mem)
qed

lemma run_flush_entry [simp]: "run (flush_entry hashIdx cs c st) = subTree st @ [c]"
  by (simp add: flush_entry_def Let_def)

lemma lane_flush_entry:
  "lane (flush_entry hashIdx cs c st)
     = rangeMax (lstate.height st) (hashIdx (hd (subTree st @ [c]))) (hashIdx c) + 1"
  by (simp add: flush_entry_def Let_def)

lemma lane_flush_entry_pos: "1 \<le> lane (flush_entry hashIdx cs c st)"
  using rangeMax_nonneg [of "lstate.height st" "hashIdx (hd (subTree st @ [c]))" "hashIdx c"]
  by (simp add: lane_flush_entry)

lemma flush_written_height:
  assumes "written (flush_entry hashIdx cs c st) x"
  shows "lstate.height (flush hashIdx cs c st) (hashIdx x) = Some (lane (flush_entry hashIdx cs c st))"
proof -
  from assms have "x \<in> set (tl (subTree st)) \<or> (tip_written (flush_entry hashIdx cs c st) \<and> x = c)"
    by (simp add: written_def butlast_tl_snoc)
  then show ?thesis
  proof
    assume "x \<in> set (tl (subTree st))"
    then show ?thesis by (simp add: flush_height lane_flush_entry)
  next
    assume "tip_written (flush_entry hashIdx cs c st) \<and> x = c"
    then show ?thesis
      by (simp add: flush_entry_def flush_def Let_def)
  qed
qed

lemma log_inv_flush:
  assumes "log_inv hashIdx (st, l)"
  shows "log_inv hashIdx (flush hashIdx cs c st, l @ [flush_entry hashIdx cs c st])"
proof -
  let ?e = "flush_entry hashIdx cs c st" and ?st = "flush hashIdx cs c st"
  from assms have inv: "run_inv hashIdx st"
    and rec: "lanes_recorded hashIdx l (lstate.height st)"
    and ord: "lanes_ordered hashIdx l"
    by (simp_all add: log_inv_def)
  have 1: "run_inv hashIdx ?st" by (simp add: run_inv_def flush_subTree)
  have 2: "lanes_recorded hashIdx (l @ [?e]) (lstate.height ?st)"
    unfolding lanes_recorded_def
  proof
    fix e assume "e \<in> set (l @ [?e])"
    then consider "e \<in> set l" | "e = ?e" by auto
    then show "1 \<le> lane e \<and> (\<forall>x. written e x \<longrightarrow> lstate.height ?st (hashIdx x) = Some (lane e))"
    proof cases
      case 1
      with rec have le: "1 \<le> lane e"
        and w: "\<And>x. written e x \<Longrightarrow> lstate.height st (hashIdx x) = Some (lane e)"
        by (auto simp: lanes_recorded_def)
      have "lstate.height ?st (hashIdx x) = Some (lane e)" if "written e x" for x
      proof -
        from that have h: "lstate.height st (hashIdx x) = Some (lane e)" by (rule w)
        with le have "lstate.height st (hashIdx x) \<noteq> Some 0" by simp
        with inv have "lstate.height ?st (hashIdx x) = lstate.height st (hashIdx x)"
          by (rule flush_keeps_assigned)
        with h show ?thesis by simp
      qed
      with le show ?thesis by simp
    next
      case 2
      then show ?thesis by (simp add: lane_flush_entry_pos flush_written_height)
    qed
  qed
  have 3: "lanes_ordered hashIdx (l @ [?e])"
    unfolding lanes_ordered_def
  proof (intro allI impI)
    fix j k x i
    assume j: "j < length (l @ [?e])" and k: "k < j"
      and a: "written ((l @ [?e]) ! k) x \<and> hashIdx x = Some i \<and> in_range hashIdx ((l @ [?e]) ! j) i"
    show "lane ((l @ [?e]) ! k) < lane ((l @ [?e]) ! j)"
    proof (cases "j < length l")
      case True
      with k a ord show ?thesis
        unfolding lanes_ordered_def by (simp add: nth_append) blast
    next
      case False
      with j have jl: "j = length l" by simp
      with k have kl: "k < length l" by simp
      with a have w: "written (l ! k) x" by (simp add: nth_append)
      from kl have "l ! k \<in> set l" by simp
      with rec w have hx: "lstate.height st (hashIdx x) = Some (lane (l ! k))"
        by (auto simp: lanes_recorded_def)
      from a jl obtain a' b' where ab: "hashIdx (hd (subTree st @ [c])) = Some a'"
        "hashIdx c = Some b'" "a' \<le> i" "i \<le> b'"
        by (auto simp: in_range_def split: option.splits)
      from hx a have "lstate.height st (Some i) = Some (lane (l ! k))" by simp
      with ab have "lane (l ! k) \<le> rangeMax (lstate.height st) (Some a') (Some b')"
        by (intro rangeMax_ge)
      with ab have "lane (l ! k) < lane ?e" by (simp add: lane_flush_entry)
      with jl kl show ?thesis by (simp add: nth_append)
    qed
  qed
  from 1 2 3 show ?thesis by (simp add: log_inv_def)
qed

lemma log_inv_push:
  "log_inv hashIdx (s, l) \<Longrightarrow> lstate.height s (hashIdx c) = Some 0 \<or> subTree s = []
     \<Longrightarrow> log_inv hashIdx (s\<lparr>subTree := subTree s @ [c]\<rparr>, l)"
  by (auto simp: log_inv_def run_inv_push) (simp add: run_inv_def)

lemma dfs_runs_loop_log_inv:
  assumes IH: "\<And>d s l s' l'. log_inv hashIdx (s, l)
        \<Longrightarrow> dfs_runs n commits hashIdx d (s, l) = Some (Inr (s', l'))
        \<Longrightarrow> log_inv hashIdx (s', l') \<and> subTree s' = []"
  shows "dfs_runs_loop n commits hashIdx c cs (Some (Inr (s, l))) = Some (Inr (s', l'))
     \<Longrightarrow> log_inv hashIdx (s\<lparr>subTree := subTree s @ [c]\<rparr>, l) \<Longrightarrow> cs \<noteq> []
     \<Longrightarrow> log_inv hashIdx (s', l') \<and> subTree s' = []"
proof (induction cs arbitrary: s l)
  case Nil
  then show ?case by simp
next
  case (Cons d ds)
  let ?r = "dfs_runs n commits hashIdx d (s\<lparr>subTree := subTree s @ [c]\<rparr>, l)"
  from Cons.prems(1) have loop: "dfs_runs_loop n commits hashIdx c ds ?r = Some (Inr (s', l'))"
    by simp
  have "\<exists>sl. ?r = Some (Inr sl)"
  proof (rule ccontr)
    assume "\<not> ?thesis"
    then have "dfs_runs_loop n commits hashIdx c ds ?r = ?r" by (intro dfs_runs_loop_stuck) simp
    with loop \<open>\<not> (\<exists>sl. ?r = Some (Inr sl))\<close> show False by simp
  qed
  then obtain s1 l1 where s1: "?r = Some (Inr (s1, l1))" by auto
  from IH [OF Cons.prems(2) s1] have i1: "log_inv hashIdx (s1, l1)" and e1: "subTree s1 = []"
    by simp_all
  show ?case
  proof (cases "ds = []")
    case True
    with loop s1 i1 e1 show ?thesis by simp
  next
    case False
    from loop s1
    have l2: "dfs_runs_loop n commits hashIdx c ds (Some (Inr (s1, l1))) = Some (Inr (s', l'))"
      by simp
    have "log_inv hashIdx (s1\<lparr>subTree := subTree s1 @ [c]\<rparr>, l1)"
      using i1 e1 by (intro log_inv_push) simp_all
    with l2 show ?thesis using False by (rule Cons.IH)
  qed
qed

lemma dfs_runs_log_inv:
  "log_inv hashIdx (st, l) \<Longrightarrow> dfs_runs n commits hashIdx c (st, l) = Some (Inr (st', l'))
     \<Longrightarrow> log_inv hashIdx (st', l') \<and> subTree st' = []"
proof (induction n arbitrary: c st l st' l')
  case 0
  then show ?case by simp
next
  case (Suc n)
  from Suc.prems(2) obtain cs where cs: "commits c = Some cs"
    by (cases "commits c") auto
  show ?case
  proof (cases "cs = [] \<or> lstate.height st (hashIdx c) \<noteq> Some 0")
    case True
    with Suc.prems(2) cs have "st' = flush hashIdx cs c st" "l' = l @ [flush_entry hashIdx cs c st]"
      by auto
    with Suc.prems(1) show ?thesis by (simp add: log_inv_flush flush_subTree)
  next
    case False
    with Suc.prems(2) cs
    have loop: "dfs_runs_loop n commits hashIdx c cs (Some (Inr (st, l))) = Some (Inr (st', l'))"
      by simp
    from False Suc.prems(1) have inv: "log_inv hashIdx (st\<lparr>subTree := subTree st @ [c]\<rparr>, l)"
      by (intro log_inv_push) simp_all
    from False have ne: "cs \<noteq> []" by simp
    show ?thesis by (rule dfs_runs_loop_log_inv [OF Suc.IH loop inv ne])
  qed
qed

text \<open>
  Claim C1, as the code has it.  Every flush assigns a value that is greater than every
  height found in the rows of its own range, and assigned heights are kept.  So for two
  flushes of one traversal, a commit \<open>y\<close> written by the later one ends with a height
  different from (greater than) that of every commit \<open>x\<close> written by the earlier one whose
  row index lies in the row range of the later run.  The heights of the final state are
  those of the layout, except that row 0 is set to 1 afterwards.
\<close>

theorem later_run_gets_new_lane:
  assumes "dfs_runs n commits hashIdx c (init_state m, []) = Some (Inr (st, l))"
    and "k < j" and "j < length l"
    and "written (l ! k) x" and "written (l ! j) y"
    and "hashIdx x = Some i" and "in_range hashIdx (l ! j) i"
  shows "dfs n commits hashIdx c (init_state m) = Some (Inr st)
    \<and> lstate.height st (hashIdx x) = Some (lane (l ! k))
    \<and> lstate.height st (hashIdx y) = Some (lane (l ! j))
    \<and> lane (l ! k) < lane (l ! j)"
proof -
  have "log_inv hashIdx (init_state m, [])"
    by (simp add: log_inv_def run_inv_init lanes_recorded_def lanes_ordered_def)
  from dfs_runs_log_inv [OF this assms(1)]
  have rec: "lanes_recorded hashIdx l (lstate.height st)" and ord: "lanes_ordered hashIdx l"
    by (simp_all add: log_inv_def)
  from assms(2,3) have "l ! k \<in> set l" "l ! j \<in> set l" by simp_all
  with rec assms(4,5) have "lstate.height st (hashIdx x) = Some (lane (l ! k))"
    "lstate.height st (hashIdx y) = Some (lane (l ! j))"
    by (auto simp: lanes_recorded_def)
  moreover from ord assms(2,3,4,6,7) have "lane (l ! k) < lane (l ! j)"
    unfolding lanes_ordered_def by blast
  moreover from assms(1) have "dfs n commits hashIdx c (init_state m) = Some (Inr st)"
    by (rule dfs_runs_Inr)
  ultimately show ?thesis by simp
qed


lemma runs_of_Inr: "runs_of r = Some (Inr l) \<Longrightarrow> \<exists>st. r = Some (Inr (st, l))"
  by (cases r rule: runs_of.cases) auto

text \<open>
  The history \<open>a \<rightarrow> m \<rightarrow> n \<rightarrow> z\<close> with the branches \<open>n \<rightarrow> p\<close> and \<open>m \<rightarrow> r\<close>, rows in the
  order \<open>a, m, n, r, p, z\<close>.  The run \<open>[n, p]\<close> spans rows 2 to 4 and the run \<open>[m, r]\<close>
  spans rows 1 to 3; \<open>p\<close> and \<open>r\<close> lie on different runs whose row ranges overlap in rows
  2 and 3, and both get height 2: row 4 of \<open>p\<close> is outside the range of the run \<open>[m, r]\<close>
  that is flushed later.
\<close>

theorem overlapping_runs_share_lane:
  "getCommitGraph 5
     [''a'' \<mapsto> [''m''], ''m'' \<mapsto> [''n'', ''r''], ''n'' \<mapsto> [''z'', ''p''], ''r'' \<mapsto> [], ''p'' \<mapsto> [],
      ''z'' \<mapsto> []]
     [\<lparr>sorted_commit.hash = ''a'', date = 10\<rparr>, \<lparr>sorted_commit.hash = ''m'', date = 20\<rparr>,
      \<lparr>sorted_commit.hash = ''n'', date = 30\<rparr>, \<lparr>sorted_commit.hash = ''r'', date = 40\<rparr>,
      \<lparr>sorted_commit.hash = ''p'', date = 50\<rparr>, \<lparr>sorted_commit.hash = ''z'', date = 60\<rparr>]
   = Some (Inr [\<lparr>layout_entry.hash = ''a'', children = Some [''m''], height = Some 1\<rparr>,
                \<lparr>layout_entry.hash = ''m'', children = Some [''n'', ''r''], height = Some 1\<rparr>,
                \<lparr>layout_entry.hash = ''n'', children = Some [''z'', ''p''], height = Some 1\<rparr>,
                \<lparr>layout_entry.hash = ''r'', children = Some [], height = Some 2\<rparr>,
                \<lparr>layout_entry.hash = ''p'', children = Some [], height = Some 2\<rparr>,
                \<lparr>layout_entry.hash = ''z'', children = Some [], height = Some 1\<rparr>])
   \<and> runs_of (dfs_runs 5
        [''a'' \<mapsto> [''m''], ''m'' \<mapsto> [''n'', ''r''], ''n'' \<mapsto> [''z'', ''p''], ''r'' \<mapsto> [], ''p'' \<mapsto> [],
         ''z'' \<mapsto> []]
        (hashIdx_of
          [\<lparr>sorted_commit.hash = ''a'', date = 10\<rparr>, \<lparr>sorted_commit.hash = ''m'', date = 20\<rparr>,
           \<lparr>sorted_commit.hash = ''n'', date = 30\<rparr>, \<lparr>sorted_commit.hash = ''r'', date = 40\<rparr>,
           \<lparr>sorted_commit.hash = ''p'', date = 50\<rparr>, \<lparr>sorted_commit.hash = ''z'', date = 60\<rparr>])
        ''a'' (init_state 6, []))
     = Some (Inr [\<lparr>run = [''a'', ''m'', ''n'', ''z''], tip_written = True, lane = 1\<rparr>,
                  \<lparr>run = [''n'', ''p''], tip_written = True, lane = 2\<rparr>,
                  \<lparr>run = [''m'', ''r''], tip_written = True, lane = 2\<rparr>])
   \<and> map (hashIdx_of
        [\<lparr>sorted_commit.hash = ''a'', date = 10\<rparr>, \<lparr>sorted_commit.hash = ''m'', date = 20\<rparr>,
         \<lparr>sorted_commit.hash = ''n'', date = 30\<rparr>, \<lparr>sorted_commit.hash = ''r'', date = 40\<rparr>,
         \<lparr>sorted_commit.hash = ''p'', date = 50\<rparr>, \<lparr>sorted_commit.hash = ''z'', date = 60\<rparr>])
       [''a'', ''m'', ''n'', ''r'', ''p'', ''z'']
     = [Some 0, Some 1, Some 2, Some 3, Some 4, Some 5]"
  by code_simp

theorem later_run_gets_new_lane_witness:
  "\<exists>st. dfs_runs 5
        [''a'' \<mapsto> [''m''], ''m'' \<mapsto> [''n'', ''r''], ''n'' \<mapsto> [''z'', ''p''], ''r'' \<mapsto> [], ''p'' \<mapsto> [],
         ''z'' \<mapsto> []]
        [''a'' \<mapsto> 0, ''m'' \<mapsto> 1, ''n'' \<mapsto> 2, ''r'' \<mapsto> 3, ''p'' \<mapsto> 4, ''z'' \<mapsto> 5]
        ''a'' (init_state 6, [])
      = Some (Inr (st, [\<lparr>run = [''a'', ''m'', ''n'', ''z''], tip_written = True, lane = 1\<rparr>,
                  \<lparr>run = [''n'', ''p''], tip_written = True, lane = 2\<rparr>,
                  \<lparr>run = [''m'', ''r''], tip_written = True, lane = 2\<rparr>]))
     \<and> (0::nat) < 1 \<and> (1::nat) < 3
     \<and> written \<lparr>run = [''a'', ''m'', ''n'', ''z''], tip_written = True, lane = 1\<rparr> ''n''
     \<and> written \<lparr>run = [''n'', ''p''], tip_written = True, lane = 2\<rparr> ''p''
     \<and> in_range [''a'' \<mapsto> 0, ''m'' \<mapsto> 1, ''n'' \<mapsto> 2, ''r'' \<mapsto> 3, ''p'' \<mapsto> 4, ''z'' \<mapsto> 5]
           \<lparr>run = [''n'', ''p''], tip_written = True, lane = 2\<rparr> 2
     \<and> lstate.height st (Some 2) = Some 1 \<and> lstate.height st (Some 4) = Some 2"
proof -
  let ?commits = "[''a'' \<mapsto> [''m''], ''m'' \<mapsto> [''n'', ''r''], ''n'' \<mapsto> [''z'', ''p''], ''r'' \<mapsto> [],
      ''p'' \<mapsto> [], ''z'' \<mapsto> []] :: string \<rightharpoonup> string list"
  let ?hashIdx = "[''a'' \<mapsto> 0, ''m'' \<mapsto> 1, ''n'' \<mapsto> 2, ''r'' \<mapsto> 3, ''p'' \<mapsto> 4, ''z'' \<mapsto> 5]
      :: string \<rightharpoonup> nat"
  let ?l = "[\<lparr>run = [''a'', ''m'', ''n'', ''z''], tip_written = True, lane = 1\<rparr>,
                  \<lparr>run = [''n'', ''p''], tip_written = True, lane = 2\<rparr>,
                  \<lparr>run = [''m'', ''r''], tip_written = True, lane = 2\<rparr>]"
  have "runs_of (dfs_runs 5 ?commits ?hashIdx ''a'' (init_state 6, [])) = Some (Inr ?l)"
    by code_simp
  then obtain st where run: "dfs_runs 5 ?commits ?hashIdx ''a'' (init_state 6, []) = Some (Inr (st, ?l))"
    by (blast dest: runs_of_Inr)
  have kj: "(0::nat) < 1" "(1::nat) < length ?l" by simp_all
  have w0: "written (?l ! 0) ''n''" by (simp add: written_def)
  have w1: "written (?l ! 1) ''p''" by (simp add: written_def)
  have ix: "?hashIdx ''n'' = Some 2" by simp
  have rg: "in_range ?hashIdx (?l ! 1) 2" by (simp add: in_range_def)
  from later_run_gets_new_lane [OF run kj w0 w1 ix rg]
  have "lstate.height st (Some 2) = Some 1 \<and> lstate.height st (Some 4) = Some 2" by simp
  with run kj w0 w1 rg show ?thesis by auto
qed

end
